theory Spec2Isabelle
  imports Complex_Main
begin

section \<open>Strings and regular expressions\<close>

text \<open>
  A JavaScript string is a sequence of UTF-16 code units; \<open>jstring\<close> is the list of their
  numbers (what \<^verbatim>\<open>charCodeAt\<close> returns), and \<open>length\<close> is the source's \<^verbatim>\<open>.length\<close>. Identifiers, topics, keywords and
  agent names are only compared for equality and are kept as \<open>string\<close>.
\<close>

type_synonym jstring = "int list"

definition js :: "string \<Rightarrow> jstring" where
  "js s = map of_char s"

text \<open>
  A regular expression is modelled by its backtracking matcher: applied to the rest of the
  input it returns the remainders left by every way of matching a prefix, in the order in
  which the backtracking engine tries them. The match the engine reports is the first one.
\<close>

type_synonym parser = "jstring \<Rightarrow> jstring list"

definition cls :: "(int \<Rightarrow> bool) \<Rightarrow> parser" where
  "cls P s = (case s of [] \<Rightarrow> [] | c # cs \<Rightarrow> if P c then [cs] else [])"

definition seq :: "parser \<Rightarrow> parser \<Rightarrow> parser" where
  "seq p q s = concat (map q (p s))"

definition alt :: "parser \<Rightarrow> parser \<Rightarrow> parser" where
  "alt p q s = p s @ q s"

definition opt :: "parser \<Rightarrow> parser" where
  "opt p s = p s @ [s]"

fun many :: "(int \<Rightarrow> bool) \<Rightarrow> parser" where
  "many P [] = [[]]"
| "many P (c # cs) = (if P c then many P cs @ [c # cs] else [c # cs])"

fun rep :: "nat \<Rightarrow> (int \<Rightarrow> bool) \<Rightarrow> parser" where
  "rep 0 P s = [s]"
| "rep (Suc n) P s = seq (cls P) (rep n P) s"

definition many1 :: "(int \<Rightarrow> bool) \<Rightarrow> parser" where
  "many1 P = seq (cls P) (many P)"

fun lit :: "jstring \<Rightarrow> parser" where
  "lit [] s = [s]"
| "lit (x # xs) s = seq (cls (\<lambda>c. c = x)) (lit xs) s"

definition is_upper :: "int \<Rightarrow> bool" where
  "is_upper c \<longleftrightarrow> 65 \<le> c \<and> c \<le> 90"

definition is_lower :: "int \<Rightarrow> bool" where
  "is_lower c \<longleftrightarrow> 97 \<le> c \<and> c \<le> 122"

definition is_digit :: "int \<Rightarrow> bool" where
  "is_digit c \<longleftrightarrow> 48 \<le> c \<and> c \<le> 57"

definition is_alnum :: "int \<Rightarrow> bool" where
  "is_alnum c \<longleftrightarrow> is_lower c \<or> is_upper c \<or> is_digit c"

definition is_letter :: "int \<Rightarrow> bool" where
  "is_letter c \<longleftrightarrow> is_lower c \<or> is_upper c"

text \<open>The class \<^verbatim>\<open>\s\<close> of ECMAScript: white space and line terminators.\<close>

definition is_space :: "int \<Rightarrow> bool" where
  "is_space c \<longleftrightarrow>
     (9 \<le> c \<and> c \<le> 13) \<or> c = 32 \<or> c = 160 \<or> c = 5760 \<or> (8192 \<le> c \<and> c \<le> 8202) \<or>
     c = 8232 \<or> c = 8233 \<or> c = 8239 \<or> c = 8287 \<or> c = 12288 \<or> c = 65279"

text \<open>
  Matching under the \<^verbatim>\<open>i\<close> flag (without \<^verbatim>\<open>u\<close>): two code units match when their
  canonical forms agree; for an ASCII letter of the pattern these are its two cases, and a
  code unit from 128 on never canonicalises into ASCII.
\<close>

definition to_upper :: "int \<Rightarrow> int" where
  "to_upper c = (if is_lower c then c - 32 else c)"

fun lit_ci :: "jstring \<Rightarrow> parser" where
  "lit_ci [] s = [s]"
| "lit_ci (x # xs) s = seq (cls (\<lambda>c. to_upper c = to_upper x)) (lit_ci xs) s"

definition first_match :: "parser \<Rightarrow> jstring \<Rightarrow> nat option" where
  "first_match p s = (case p s of [] \<Rightarrow> None | r # _ \<Rightarrow> Some (length s - length r))"

text \<open>
  \<^verbatim>\<open>String.prototype.replace\<close> with a global pattern: scan from the left; at a position
  where the pattern matches, emit the replacement and continue after the match,
  otherwise copy one code unit. The matcher returns the length of the match and the
  replacement text; the counter is the number of code units of the current match still to
  skip. No pattern of this program matches the empty string.
\<close>

fun replaceAll :: "(jstring \<Rightarrow> (nat \<times> jstring) option) \<Rightarrow> nat \<Rightarrow> jstring \<Rightarrow> jstring" where
  "replaceAll m k [] = []"
| "replaceAll m (Suc k) (c # cs) = replaceAll m k cs"
| "replaceAll m 0 (c # cs) =
     (case m (c # cs) of
        None \<Rightarrow> c # replaceAll m 0 cs
      | Some (n, r) \<Rightarrow> r @ replaceAll m (n - 1) cs)"

section \<open>FragmentFactory: PII redaction\<close>

text \<open>\<^verbatim>\<open>/(sk-[a-zA-Z0-9]{32,}|AIza[0-9A-Za-z-_]{35})/g\<close>\<close>

definition api_key_re :: parser where
  "api_key_re =
     alt (seq (lit (js ''sk-'')) (seq (rep 32 is_alnum) (many is_alnum)))
         (seq (lit (js ''AIza'')) (rep 35 (\<lambda>c. is_alnum c \<or> c = 45 \<or> c = 95)))"

text \<open>\<^verbatim>\<open>/[a-zA-Z0-9._%+-]+@[a-zA-Z0-9.-]+\.[a-zA-Z]{2,}/g\<close>\<close>

definition email_local :: "int \<Rightarrow> bool" where
  "email_local c \<longleftrightarrow> is_alnum c \<or> c = 46 \<or> c = 95 \<or> c = 37 \<or> c = 43 \<or> c = 45"

definition email_domain :: "int \<Rightarrow> bool" where
  "email_domain c \<longleftrightarrow> is_alnum c \<or> c = 46 \<or> c = 45"

definition email_re :: parser where
  "email_re =
     seq (many1 email_local)
      (seq (cls (\<lambda>c. c = 64))
        (seq (many1 email_domain)
          (seq (cls (\<lambda>c. c = 46)) (seq (rep 2 is_letter) (many is_letter)))))"

text \<open>
  \<^verbatim>\<open>/(password|passwd|pwd|<U+BE44 U+BC00 U+BC88 U+D638>|<U+BE44 U+BC88>)\s*[:=]\s*[^\s,]+/gi\<close>,
  the two Korean keywords written by their code units. The callback replaces the match by
  the text of group 1, then \<^verbatim>\<open>: [REDACTED_PWD]\<close>.
\<close>

definition pwd_keyword :: parser where
  "pwd_keyword =
     alt (lit_ci (js ''password''))
      (alt (lit_ci (js ''passwd''))
        (alt (lit_ci (js ''pwd''))
          (alt (lit_ci [48708, 48128, 48264, 54840])
               (lit_ci [48708, 48264]))))"

definition pwd_value :: "int \<Rightarrow> bool" where
  "pwd_value c \<longleftrightarrow> \<not> is_space c \<and> c \<noteq> 44"

definition pwd_tail :: parser where
  "pwd_tail =
     seq (many is_space)
      (seq (cls (\<lambda>c. c = 58 \<or> c = 61)) (seq (many is_space) (many1 pwd_value)))"

text \<open>\<^verbatim>\<open>/01[016789][-\s]?\d{3,4}[-\s]?\d{4}/g\<close>\<close>

definition phone_sep :: "int \<Rightarrow> bool" where
  "phone_sep c \<longleftrightarrow> c = 45 \<or> is_space c"

definition phone_re :: parser where
  "phone_re =
     seq (lit (js ''01''))
      (seq (cls (\<lambda>c. c = 48 \<or> c = 49 \<or> c = 54 \<or> c = 55 \<or> c = 56 \<or> c = 57))
        (seq (opt (cls phone_sep))
          (seq (rep 3 is_digit)
            (seq (opt (cls is_digit))
              (seq (opt (cls phone_sep)) (rep 4 is_digit))))))"

definition m_api_key :: "jstring \<Rightarrow> (nat \<times> jstring) option" where
  "m_api_key s = map_option (\<lambda>n. (n, js ''[REDACTED_API_KEY]'')) (first_match api_key_re s)"

definition m_email :: "jstring \<Rightarrow> (nat \<times> jstring) option" where
  "m_email s = map_option (\<lambda>n. (n, js ''[REDACTED_EMAIL]'')) (first_match email_re s)"

definition m_pwd :: "jstring \<Rightarrow> (nat \<times> jstring) option" where
  "m_pwd s =
     (case concat (map (\<lambda>r1. map (\<lambda>r. (r1, r)) (pwd_tail r1)) (pwd_keyword s)) of
        [] \<Rightarrow> None
      | (r1, r) # _ \<Rightarrow>
          Some (length s - length r, take (length s - length r1) s @ js '': [REDACTED_PWD]''))"

definition m_phone :: "jstring \<Rightarrow> (nat \<times> jstring) option" where
  "m_phone s = map_option (\<lambda>n. (n, js ''[REDACTED_PHONE]'')) (first_match phone_re s)"

definition redactPII :: "jstring \<Rightarrow> jstring" where
  "redactPII t =
     (let redacted = replaceAll m_api_key 0 t;
          redacted = replaceAll m_email 0 redacted;
          redacted = replaceAll m_pwd 0 redacted;
          redacted = replaceAll m_phone 0 redacted
      in redacted)"


section \<open>NLIClassifier: the contradiction verdict\<close>

text \<open>
  \<^verbatim>\<open>classifyNLI\<close> runs a neural model; its result is taken as given: \<open>None\<close> when
  the model is unavailable or inference fails, otherwise the score object. A label missing
  from the score object reads as \<^verbatim>\<open>undefined\<close>, which \<^verbatim>\<open>|| 0\<close> turns into 0. Scores
  are real numbers.
\<close>

record nli_scores =
  entailment :: "real option"
  neutral :: "real option"
  contradiction :: "real option"

record nli_verdict =
  contradicts :: bool
  confidence :: real
  needsEscalation :: bool
  scores :: nli_scores

definition or_zero :: "real option \<Rightarrow> real" where
  "or_zero v = (case v of None \<Rightarrow> 0 | Some x \<Rightarrow> x)"

definition detectContradiction :: "nli_scores option \<Rightarrow> nli_verdict option" where
  "detectContradiction res =
     (case res of
        None \<Rightarrow> None
      | Some sc \<Rightarrow>
          (let cScore = or_zero (contradiction sc);
               eScore = or_zero (entailment sc)
           in if cScore \<ge> 0.8 then
                Some \<lparr>contradicts = True, confidence = cScore, needsEscalation = False, scores = sc\<rparr>
              else if eScore \<ge> 0.6 then
                Some \<lparr>contradicts = False, confidence = eScore, needsEscalation = False, scores = sc\<rparr>
              else if cScore \<ge> 0.5 then
                Some \<lparr>contradicts = True, confidence = cScore, needsEscalation = True, scores = sc\<rparr>
              else
                Some \<lparr>contradicts = False, confidence = or_zero (neutral sc),
                      needsEscalation = (cScore \<ge> 0.2), scores = sc\<rparr>))"

section \<open>The data model\<close>

text \<open>
  The tables of \<^verbatim>\<open>memory-schema.sql\<close>. Timestamps are milliseconds; \<open>None\<close> is SQL
  \<^verbatim>\<open>NULL\<close> in the three columns the code ever leaves or tests as null. The importance is a
  real number (the column is \<^verbatim>\<open>REAL\<close>, the program's values are doubles). An embedding
  is a vector whose content is never inspected here.
\<close>

datatype ftype = Fact | Decision | Error | Preference | Procedure | Relation

datatype tier = Hot | Warm | Cold | Permanent

datatype relation = Related | CausedBy | ResolvedBy | PartOf | Contradicts | SupersededBy

type_synonym vec = "real list"

record fragment =
  frag_id :: string
  content :: jstring
  topic :: string
  kw_list :: "string list"
  frag_type :: ftype
  importance :: real
  content_hash :: string
  source :: "string option"
  linked_to :: "string list"
  agent_id :: string
  access_count :: int
  accessed_at :: "int option"
  created_at :: int
  ttl_tier :: tier
  estimated_tokens :: int
  utility_score :: real
  verified_at :: "int option"
  embedding :: "vec option"
  is_anchor :: bool

record fragment_link =
  from_id :: string
  to_id :: string
  relation_type :: relation

record fragment_version =
  fragment_id :: string
  v_content :: jstring
  v_topic :: string
  v_keywords :: "string list"
  v_type :: ftype
  v_importance :: real
  amended_at :: int
  amended_by :: string

record db =
  fragments :: "fragment list"
  fragment_links :: "fragment_link list"
  fragment_versions :: "fragment_version list"

text \<open>
  An exception raised by the database: the statement's promise rejects. The last two are
  raised before a row is read: \<open>InvalidColumnReference\<close> (42P10) when the statement is
  analysed, \<open>InvalidDatetime\<close> (22007) when a text parameter is not a timestamp.
\<close>

datatype db_error =
  UniqueViolation | ForeignKeyViolation | CheckViolation | RlsViolation |
  InvalidColumnReference | InvalidDatetime

text \<open>
  What the program takes from outside: the SHA-256 digest in hexadecimal
  (\<^verbatim>\<open>computeContentHash\<close>), whether an OpenAI key is configured, the embedding provider
  applied to the prepared text (\<open>None\<close> when the call throws), pgvector's cosine
  similarity \<^verbatim>\<open>1 - (a <=> b)\<close>, the clock, the \<^verbatim>\<open>cl100k_base\<close> encoder when it
  loads, the keyword extractor, the NLI model with its failed flag, and the Gemini command
  line (\<open>None\<close> when the call or the parse of its answer throws; otherwise the
  \<^verbatim>\<open>contradicts\<close> field of the verdict). The connection pool is taken to exist:
  without one \<^verbatim>\<open>insert\<close> returns \<^verbatim>\<open>null\<close> and every query throws.
\<close>

record env =
  computeContentHash :: "jstring \<Rightarrow> string"
  openai_api_key :: bool
  generateEmbedding :: "jstring \<Rightarrow> vec option"
  cosine_similarity :: "vec \<Rightarrow> vec \<Rightarrow> real"
  now :: int
  tokenizer :: "(jstring \<Rightarrow> int) option"
  extractKeywords :: "jstring \<Rightarrow> string list"
  nli_failed :: bool
  classifyNLI :: "jstring \<Rightarrow> jstring \<Rightarrow> nli_scores option"
  gemini_available :: bool
  geminiCLIJson :: "jstring \<Rightarrow> jstring \<Rightarrow> bool option"

section \<open>Row-level security\<close>

text \<open>
  \<^verbatim>\<open>queryWithAgentVector\<close> runs each statement in a transaction of its own after setting
  \<^verbatim>\<open>app.current_agent_id\<close> to the sanitised agent name. The policy of the schema admits a
  row to every command when its owner is that name, or \<^verbatim>\<open>default\<close>, or the name is
  \<^verbatim>\<open>system\<close> or \<^verbatim>\<open>admin\<close>. The policy is taken to be in force for the connecting role.
\<close>

definition agent_char :: "char \<Rightarrow> bool" where
  "agent_char c \<longleftrightarrow>
     c \<in> set ''abcdefghijklmnopqrstuvwxyzABCDEFGHIJKLMNOPQRSTUVWXYZ0123456789_-''"

definition safe_agent :: "string \<Rightarrow> string" where
  "safe_agent agentId = filter agent_char (if agentId = [] then ''default'' else agentId)"

definition visible :: "string \<Rightarrow> 'a fragment_scheme \<Rightarrow> bool" where
  "visible ctx r \<longleftrightarrow>
     agent_id r = ctx \<or> agent_id r = ''default'' \<or> ctx = ''system'' \<or> ctx = ''admin''"

definition importance_ok :: "real \<Rightarrow> bool" where
  "importance_ok x \<longleftrightarrow> 0 \<le> x \<and> x \<le> 1"

section \<open>FragmentStore\<close>

text \<open>The object \<^verbatim>\<open>FragmentFactory.create\<close> builds and \<^verbatim>\<open>insert\<close> receives.\<close>

record draft =
  d_id :: string
  d_content :: jstring
  d_topic :: string
  d_keywords :: "string list"
  d_type :: ftype
  d_importance :: real
  d_source :: "string option"
  d_linked_to :: "string list"
  d_agent_id :: string
  d_is_anchor :: bool
  d_ttl_tier :: tier
  d_content_hash :: string
  d_estimated_tokens :: int

text \<open>
  The row the \<^verbatim>\<open>INSERT\<close> of \<^verbatim>\<open>insert\<close> proposes: thirteen columns from the
  parameters, the others from the column defaults. \<^verbatim>\<open>is_anchor\<close> is not among the columns
  written. \<^verbatim>\<open>x || y\<close> takes \<open>y\<close> when \<open>x\<close> is 0 or the empty string.
\<close>

definition insert_row :: "env \<Rightarrow> draft \<Rightarrow> string \<Rightarrow> string \<Rightarrow> vec option \<Rightarrow> fragment" where
  "insert_row e f agentId contentHash emb =
     \<lparr>frag_id = d_id f,
      content = d_content f,
      topic = d_topic f,
      kw_list = d_keywords f,
      frag_type = d_type f,
      importance = (if d_importance f = 0 then 0.5 else d_importance f),
      content_hash = contentHash,
      source = d_source f,
      linked_to = d_linked_to f,
      agent_id = agentId,
      access_count = 0,
      accessed_at = None,
      created_at = now e,
      ttl_tier = d_ttl_tier f,
      estimated_tokens =
        (if d_estimated_tokens f = 0 then (int (length (d_content f)) + 3) div 4
         else d_estimated_tokens f),
      utility_score = 1,
      verified_at = Some (now e),
      embedding = emb,
      is_anchor = False\<rparr>"

text \<open>
  \<^verbatim>\<open>insert\<close>. The duplicate check is a \<^verbatim>\<open>SELECT\<close> under the caller's policy and returns
  at once with the id found. Otherwise the \<^verbatim>\<open>INSERT ... ON CONFLICT (content_hash) DO
  UPDATE\<close> runs: the unique index on \<^verbatim>\<open>content_hash\<close> spans all agents, a conflicting row
  the policy admits gets the greater importance, one it hides makes the statement fail.
\<close>

definition insert_store :: "env \<Rightarrow> draft \<Rightarrow> db \<Rightarrow> db_error + (string \<times> db)" where
  "insert_store e f d =
       (let agentId = (if d_agent_id f = [] then ''default'' else d_agent_id f);
            ctx = safe_agent agentId;
            contentHash = computeContentHash e (d_content f)
        in case filter (\<lambda>r. content_hash r = contentHash) (filter (visible ctx) (fragments d)) of
             r # _ \<Rightarrow> Inr (frag_id r, d)
           | [] \<Rightarrow>
              (let emb = (if d_importance f > 0.5 \<and> openai_api_key e
                          then generateEmbedding e (d_content f) else None);
                   row = insert_row e f agentId contentHash emb
               in if \<not> visible ctx row then Inl RlsViolation
                  else if \<not> importance_ok (importance row) then Inl CheckViolation
                  else (case filter (\<lambda>r. content_hash r = contentHash) (fragments d) of
                         r # _ \<Rightarrow>
                           if visible ctx r then
                             Inr (frag_id r,
                                  d\<lparr>fragments :=
                                      map (\<lambda>x. if content_hash x = contentHash
                                                then x\<lparr>importance := max (importance x) (importance row),
                                                       accessed_at := Some (now e)\<rparr>
                                                else x) (fragments d)\<rparr>)
                           else Inl RlsViolation
                       | [] \<Rightarrow>
                           if d_id f \<in> frag_id ` set (fragments d) then Inl UniqueViolation
                           else Inr (d_id f, d\<lparr>fragments := fragments d @ [row]\<rparr>))))"

definition archiveVersion :: "env \<Rightarrow> fragment \<Rightarrow> string \<Rightarrow> db \<Rightarrow> db" where
  "archiveVersion e f agentId d =
     d\<lparr>fragment_versions := fragment_versions d @
         [\<lparr>fragment_id = frag_id f, v_content = content f, v_topic = topic f,
           v_keywords = kw_list f, v_type = frag_type f, v_importance = importance f,
           amended_at = now e, amended_by = agentId\<rparr>]\<rparr>"

definition getById :: "string \<Rightarrow> string \<Rightarrow> db \<Rightarrow> fragment option" where
  "getById i agentId d =
     (case filter (\<lambda>r. frag_id r = i) (filter (visible (safe_agent agentId)) (fragments d)) of
        [] \<Rightarrow> None
      | r # _ \<Rightarrow> Some r)"

text \<open>The fields \<^verbatim>\<open>update\<close> may receive; \<open>None\<close> is \<^verbatim>\<open>undefined\<close>.\<close>

record updates =
  u_content :: "jstring option"
  u_topic :: "string option"
  u_keywords :: "string list option"
  u_type :: "ftype option"
  u_importance :: "real option"
  u_is_anchor :: "bool option"

definition no_updates :: updates where
  "no_updates = \<lparr>u_content = None, u_topic = None, u_keywords = None, u_type = None,
                  u_importance = None, u_is_anchor = None\<rparr>"

text \<open>
  What \<^verbatim>\<open>update\<close> returns: \<^verbatim>\<open>null\<close>, the object \<^verbatim>\<open>{merged: true, existingId}\<close>, or a
  row (the row read when there is nothing to set, the row written otherwise).
\<close>

datatype update_result = UpdNull | UpdMerged string | UpdRow fragment

definition set_clauses :: "env \<Rightarrow> updates \<Rightarrow> fragment \<Rightarrow> fragment" where
  "set_clauses e u r =
     (let r = (case u_content u of None \<Rightarrow> r
               | Some c \<Rightarrow> r\<lparr>content := c, content_hash := computeContentHash e c,
                              embedding := None\<rparr>);
          r = (case u_topic u of None \<Rightarrow> r | Some t \<Rightarrow> r\<lparr>topic := t\<rparr>);
          r = (case u_keywords u of None \<Rightarrow> r | Some k \<Rightarrow> r\<lparr>kw_list := k\<rparr>);
          r = (case u_type u of None \<Rightarrow> r | Some t \<Rightarrow> r\<lparr>frag_type := t\<rparr>);
          r = (case u_importance u of None \<Rightarrow> r | Some x \<Rightarrow> r\<lparr>importance := x\<rparr>);
          r = (case u_is_anchor u of None \<Rightarrow> r | Some a \<Rightarrow> r\<lparr>is_anchor := a\<rparr>)
      in r\<lparr>verified_at := Some (now e), accessed_at := Some (now e)\<rparr>)"

text \<open>
  \<^verbatim>\<open>update\<close>: read the row, archive it, and only then look at the new content. A
  collision with another row the caller can see returns the merge object; one with a row
  the policy hides is caught by the unique index when the \<^verbatim>\<open>UPDATE\<close> runs.
\<close>

definition update_store ::
  "env \<Rightarrow> string \<Rightarrow> updates \<Rightarrow> string \<Rightarrow> db \<Rightarrow> db_error + (update_result \<times> db)" where
  "update_store e i u agentId d =
     (case getById i agentId d of
        None \<Rightarrow> Inr (UpdNull, d)
      | Some existing \<Rightarrow>
         (let d1 = archiveVersion e existing agentId d;
              ctx = safe_agent agentId;
              dup = (case u_content u of
                       None \<Rightarrow> []
                     | Some c \<Rightarrow>
                         filter (\<lambda>r. content_hash r = computeContentHash e c \<and> frag_id r \<noteq> i)
                           (filter (visible ctx) (fragments d1)))
          in case dup of
               r # _ \<Rightarrow> Inr (UpdMerged (frag_id r), d1)
             | [] \<Rightarrow>
                 if u = no_updates then Inr (UpdRow existing, d1)
                 else
                   let new = set_clauses e u existing in
                   if \<not> importance_ok (importance new) then Inl CheckViolation
                   else if u_content u \<noteq> None \<and>
                           list_ex (\<lambda>r. content_hash r = content_hash new \<and> frag_id r \<noteq> i)
                             (fragments d1)
                        then Inl UniqueViolation
                   else Inr (UpdRow new,
                             d1\<lparr>fragments :=
                                 map (\<lambda>r. if frag_id r = i \<and> visible ctx r
                                           then set_clauses e u r else r) (fragments d1)\<rparr>)))"

text \<open>
  The class body defines \<^verbatim>\<open>delete\<close> twice. The first definition removes the edges and
  prunes every \<^verbatim>\<open>linked_to\<close> array before deleting the row.
\<close>

definition cascade :: "string list \<Rightarrow> db \<Rightarrow> db" where
  "cascade ids d =
     d\<lparr>fragment_links :=
         filter (\<lambda>l. from_id l \<notin> set ids \<and> to_id l \<notin> set ids) (fragment_links d),
       fragment_versions := filter (\<lambda>v. fragment_id v \<notin> set ids) (fragment_versions d)\<rparr>"

definition delete_rows :: "(fragment \<Rightarrow> bool) \<Rightarrow> db \<Rightarrow> nat \<times> db" where
  "delete_rows P d =
     (length (filter P (fragments d)),
      cascade (map frag_id (filter P (fragments d)))
        (d\<lparr>fragments := filter (\<lambda>r. \<not> P r) (fragments d)\<rparr>))"

definition delete_first :: "string \<Rightarrow> string \<Rightarrow> db \<Rightarrow> bool \<times> db" where
  "delete_first i agentId d =
     (let ctx = safe_agent agentId;
          d1 = d\<lparr>fragment_links := filter (\<lambda>l. from_id l \<noteq> i \<and> to_id l \<noteq> i) (fragment_links d)\<rparr>;
          d2 = d1\<lparr>fragments :=
                  map (\<lambda>r. if visible ctx r \<and> i \<in> set (linked_to r)
                            then r\<lparr>linked_to := removeAll i (linked_to r)\<rparr> else r) (fragments d1)\<rparr>;
          (n, d3) = delete_rows (\<lambda>r. frag_id r = i \<and> visible ctx r) d2
      in (n > 0, d3))"

text \<open>
  The second definition, at the end of the class body, is the one every call reaches (a
  later method of the same name replaces the earlier one): it deletes the row. The foreign
  keys of \<^verbatim>\<open>fragment_links\<close> and \<^verbatim>\<open>fragment_versions\<close> cascade.
\<close>

definition delete_store :: "string \<Rightarrow> string \<Rightarrow> db \<Rightarrow> bool \<times> db" where
  "delete_store i agentId d =
     (let (n, d1) = delete_rows (\<lambda>r. frag_id r = i \<and> visible (safe_agent agentId) r) d
      in (n > 0, d1))"

text \<open>
  \<^verbatim>\<open>createLink\<close>: upsert the edge on its ordered pair (the pair is unique, a second edge
  on it replaces the relation type), then append each endpoint to the other's
  \<^verbatim>\<open>linked_to\<close> unless it is there. Both endpoints must exist (foreign keys).
\<close>

definition upsert_link :: "string \<Rightarrow> string \<Rightarrow> relation \<Rightarrow> fragment_link list \<Rightarrow> fragment_link list" where
  "upsert_link fromId toId rel ls =
     (if list_ex (\<lambda>l. from_id l = fromId \<and> to_id l = toId) ls
      then map (\<lambda>l. if from_id l = fromId \<and> to_id l = toId then l\<lparr>relation_type := rel\<rparr> else l) ls
      else ls @ [\<lparr>from_id = fromId, to_id = toId, relation_type = rel\<rparr>])"

definition add_linked :: "string \<Rightarrow> string \<Rightarrow> string \<Rightarrow> fragment list \<Rightarrow> fragment list" where
  "add_linked ctx i other fs =
     map (\<lambda>r. if frag_id r = i \<and> visible ctx r \<and> other \<notin> set (linked_to r)
               then r\<lparr>linked_to := linked_to r @ [other]\<rparr> else r) fs"

definition createLink :: "string \<Rightarrow> string \<Rightarrow> relation \<Rightarrow> string \<Rightarrow> db \<Rightarrow> db_error + db" where
  "createLink fromId toId rel agentId d =
     (if fromId \<in> frag_id ` set (fragments d) \<and> toId \<in> frag_id ` set (fragments d) then
        Inr (d\<lparr>fragment_links := upsert_link fromId toId rel (fragment_links d),
               fragments := add_linked (safe_agent agentId) toId fromId
                              (add_linked (safe_agent agentId) fromId toId (fragments d))\<rparr>)
      else Inl ForeignKeyViolation)"


section \<open>FragmentIndex: the Redis side\<close>

text \<open>
  The keys of the \<^verbatim>\<open>frag:\<close> namespace. A Redis set is an ordered list without
  duplicates (the order in which members were added stands for the unspecified order in
  which Redis returns them); the sorted set \<^verbatim>\<open>frag:recent\<close> pairs each member with
  its score. Key expiry is not modelled: nothing here lets time pass between two steps.
\<close>

record wm_entry =
  wm_id :: string
  wm_content :: jstring
  wm_type :: ftype
  wm_topic :: string
  wm_importance :: real
  wm_estimated_tokens :: int
  wm_added_at :: int

text \<open>What search results and cached fragments carry besides the row.\<close>

record hit = fragment +
  similarity :: "real option"
  link_relation :: "relation option"
  stale_days :: "int option"

record eval_job =
  job_fragmentId :: string
  job_agentId :: string
  job_type :: ftype
  job_content :: jstring

record pending_entry =
  idA :: string
  idB :: string
  contentA :: jstring
  contentB :: jstring
  flaggedAt :: int

record redis =
  ready :: bool
  kw_sets :: "string \<Rightarrow> string list"
  topic_sets :: "string \<Rightarrow> string list"
  type_sets :: "ftype \<Rightarrow> string list"
  recent :: "(string \<times> int) list"
  session_sets :: "string \<Rightarrow> string list"
  hot_cache :: "string \<Rightarrow> hit option"
  working_memory :: "string \<Rightarrow> wm_entry list"
  memory_evaluation :: "eval_job list"
  contradiction_check_at :: "int option"
  pending_contradictions :: "pending_entry list"

definition sadd :: "'a \<Rightarrow> 'a list \<Rightarrow> 'a list" where
  "sadd x xs = (if x \<in> set xs then xs else xs @ [x])"

definition zadd :: "string \<Rightarrow> int \<Rightarrow> (string \<times> int) list \<Rightarrow> (string \<times> int) list" where
  "zadd x score zs = filter (\<lambda>p. fst p \<noteq> x) zs @ [(x, score)]"

text \<open>
  \<^verbatim>\<open>toLowerCase\<close> on the ASCII letters; other characters of a \<open>string\<close> are left as
  they are.
\<close>

definition lower_char :: "char \<Rightarrow> char" where
  "lower_char c =
     (if 65 \<le> (of_char c :: nat) \<and> (of_char c :: nat) \<le> 90 then char_of (of_char c + 32 :: nat) else c)"

definition toLowerCase :: "string \<Rightarrow> string" where
  "toLowerCase s = map lower_char s"

definition index_fragment ::
  "env \<Rightarrow> string \<Rightarrow> string list \<Rightarrow> string \<Rightarrow> ftype \<Rightarrow> string option \<Rightarrow> redis \<Rightarrow> redis" where
  "index_fragment e i kws tp ty sessionId rd =
     (if \<not> ready rd then rd
      else
        let rd = fold (\<lambda>kw r. r\<lparr>kw_sets := (kw_sets r)(toLowerCase kw := sadd i (kw_sets r (toLowerCase kw)))\<rparr>)
                   kws rd;
            rd = rd\<lparr>topic_sets := (topic_sets rd)(tp := sadd i (topic_sets rd tp))\<rparr>;
            rd = rd\<lparr>type_sets := (type_sets rd)(ty := sadd i (type_sets rd ty))\<rparr>;
            rd = rd\<lparr>recent := zadd i (now e) (recent rd)\<rparr>
        in case sessionId of
             None \<Rightarrow> rd
           | Some sid \<Rightarrow>
               if sid = [] then rd
               else rd\<lparr>session_sets := (session_sets rd)(sid := sadd i (session_sets rd sid))\<rparr>)"

definition deindex ::
  "string \<Rightarrow> string list \<Rightarrow> string \<Rightarrow> ftype \<Rightarrow> redis \<Rightarrow> redis" where
  "deindex i kws tp ty rd =
     (if \<not> ready rd then rd
      else
        let rd = fold (\<lambda>kw r. r\<lparr>kw_sets := (kw_sets r)(toLowerCase kw := removeAll i (kw_sets r (toLowerCase kw)))\<rparr>)
                   kws rd;
            rd = (if tp = [] then rd
                  else rd\<lparr>topic_sets := (topic_sets rd)(tp := removeAll i (topic_sets rd tp))\<rparr>);
            rd = rd\<lparr>type_sets := (type_sets rd)(ty := removeAll i (type_sets rd ty))\<rparr>;
            rd = rd\<lparr>recent := filter (\<lambda>p. fst p \<noteq> i) (recent rd)\<rparr>
        in rd\<lparr>hot_cache := (hot_cache rd)(i := None)\<rparr>)"

text \<open>
  \<^verbatim>\<open>searchByKeywords\<close> of the index: the intersection of the keyword sets, and their
  union when the intersection has fewer than \<^verbatim>\<open>minResults\<close> members and there is more
  than one key.
\<close>

definition sinter :: "string list list \<Rightarrow> string list" where
  "sinter sets = (case sets of [] \<Rightarrow> [] | x # xs \<Rightarrow> filter (\<lambda>i. list_all (\<lambda>t. i \<in> set t) xs) x)"

definition sunion :: "string list list \<Rightarrow> string list" where
  "sunion sets = remdups (concat sets)"

definition index_searchByKeywords :: "string list \<Rightarrow> nat \<Rightarrow> redis \<Rightarrow> string list" where
  "index_searchByKeywords kws minResults rd =
     (if \<not> ready rd \<or> kws = [] then []
      else
        let keys = map (\<lambda>kw. kw_sets rd (toLowerCase kw)) kws;
            ids = sinter keys
        in if length ids < minResults \<and> length keys > 1 then sunion keys else ids)"

definition searchByTopic :: "string \<Rightarrow> redis \<Rightarrow> string list" where
  "searchByTopic tp rd = (if \<not> ready rd then [] else topic_sets rd tp)"

definition searchByType :: "ftype \<Rightarrow> redis \<Rightarrow> string list" where
  "searchByType ty rd = (if \<not> ready rd then [] else type_sets rd ty)"

text \<open>
  A stable insertion sort by a comparison, for every \<^verbatim>\<open>ORDER BY\<close> and
  \<^verbatim>\<open>Array.prototype.sort\<close>: among rows the comparison ties, the earlier one stays
  first.
\<close>

fun insort_by :: "('a \<Rightarrow> 'a \<Rightarrow> bool) \<Rightarrow> 'a \<Rightarrow> 'a list \<Rightarrow> 'a list" where
  "insort_by le x [] = [x]"
| "insort_by le x (y # ys) = (if le x y then x # y # ys else y # insort_by le x ys)"

definition sort_by :: "('a \<Rightarrow> 'a \<Rightarrow> bool) \<Rightarrow> 'a list \<Rightarrow> 'a list" where
  "sort_by le xs = foldr (insort_by le) xs []"

definition getRecent :: "nat \<Rightarrow> redis \<Rightarrow> string list" where
  "getRecent count rd =
     (if \<not> ready rd then []
      else take count (map fst (sort_by (\<lambda>a b. snd a \<ge> snd b) (recent rd))))"

definition cacheFragment :: "string \<Rightarrow> hit \<Rightarrow> redis \<Rightarrow> redis" where
  "cacheFragment i h rd = (if \<not> ready rd then rd else rd\<lparr>hot_cache := (hot_cache rd)(i := Some h)\<rparr>)"

definition getCachedFragment :: "string \<Rightarrow> redis \<Rightarrow> hit option" where
  "getCachedFragment i rd = (if \<not> ready rd then None else hot_cache rd i)"

text \<open>
  The working memory of a session, a Redis list, with its token budget
  (\<^verbatim>\<open>WM_MAX_TOKENS = 500\<close>). The loop counts the entries to drop from the left, passing
  over those of importance above 0.8; the filter then drops the entries whose index is
  below that count and whose importance is at most 0.8.
\<close>

fun wm_count_removed :: "int \<Rightarrow> wm_entry list \<Rightarrow> nat" where
  "wm_count_removed totalToks [] = 0"
| "wm_count_removed totalToks (p # ps) =
     (if totalToks > 500 then
        (if wm_importance p > 0.8 then wm_count_removed totalToks ps
         else Suc (wm_count_removed (totalToks - wm_estimated_tokens p) ps))
      else 0)"

definition enforceWmBudget :: "wm_entry list \<Rightarrow> wm_entry list" where
  "enforceWmBudget parsed =
     (let totalToks = sum_list (map wm_estimated_tokens parsed) in
      if totalToks \<le> 500 then parsed
      else
        let removed = wm_count_removed totalToks parsed in
        if removed > 0 then
          map snd (filter (\<lambda>(i, p). \<not> (i < removed \<and> wm_importance p \<le> 0.8))
                     (zip [0..<length parsed] parsed))
        else parsed)"

definition addToWorkingMemory :: "env \<Rightarrow> string \<Rightarrow> draft \<Rightarrow> redis \<Rightarrow> redis" where
  "addToWorkingMemory e sessionId f rd =
     (if \<not> ready rd \<or> sessionId = [] then rd
      else
        let entry = \<lparr>wm_id = d_id f, wm_content = d_content f, wm_type = d_type f,
                     wm_topic = d_topic f,
                     wm_importance = (if d_importance f = 0 then 0.5 else d_importance f),
                     wm_estimated_tokens =
                       (if d_estimated_tokens f = 0 then (int (length (d_content f)) + 3) div 4
                        else d_estimated_tokens f),
                     wm_added_at = now e\<rparr>
        in rd\<lparr>working_memory :=
               (working_memory rd)(sessionId := enforceWmBudget (working_memory rd sessionId @ [entry]))\<rparr>)"

text \<open>
  Modelled from the spec: \<^verbatim>\<open>pushToQueue\<close> of \<^verbatim>\<open>lib/redis.js\<close>, which is not among the
  source files. The spec has the evaluation queue as a FIFO list in the in-memory store,
  so a push appends the job.
\<close>

definition pushToQueue :: "eval_job \<Rightarrow> redis \<Rightarrow> redis" where
  "pushToQueue job rd = rd\<lparr>memory_evaluation := memory_evaluation rd @ [job]\<rparr>"


section \<open>FragmentFactory\<close>

text \<open>
  The parameters of \<^verbatim>\<open>remember\<close>, which \<^verbatim>\<open>create\<close> receives as they are; \<open>None\<close> is
  a field left out of the call.
\<close>

record params =
  p_content :: "jstring option"
  p_topic :: "string option"
  p_type :: "ftype option"
  p_keywords :: "string list option"
  p_importance :: "real option"
  p_source :: "string option"
  p_linkedTo :: "string list option"
  p_agentId :: "string option"
  p_isAnchor :: "bool option"
  p_sessionId :: "string option"
  p_scope :: "string option"

definition or_default :: "string option \<Rightarrow> string \<Rightarrow> string" where
  "or_default v dflt = (case v of None \<Rightarrow> dflt | Some x \<Rightarrow> if x = [] then dflt else x)"

definition trim :: "jstring \<Rightarrow> jstring" where
  "trim s = rev (dropWhile is_space (rev (dropWhile is_space s)))"

definition truncate_content :: "jstring \<Rightarrow> jstring" where
  "truncate_content c = (if length c > 300 then take 300 c @ js ''...'' else c)"

fun IMPORTANCE_WEIGHT :: "ftype \<Rightarrow> real" where
  "IMPORTANCE_WEIGHT Error = 0.9"
| "IMPORTANCE_WEIGHT Decision = 0.8"
| "IMPORTANCE_WEIGHT Procedure = 0.7"
| "IMPORTANCE_WEIGHT Preference = 0.95"
| "IMPORTANCE_WEIGHT Relation = 0.6"
| "IMPORTANCE_WEIGHT Fact = 0.5"

definition inferTTL :: "ftype \<Rightarrow> real \<Rightarrow> tier" where
  "inferTTL ty imp =
     (if ty = Preference then Permanent
      else if imp \<ge> 0.8 then Permanent
      else if ty = Error \<or> ty = Procedure then Hot
      else if imp \<ge> 0.5 then Warm
      else Cold)"

definition countTokens :: "env \<Rightarrow> jstring \<Rightarrow> int" where
  "countTokens e t =
     (case tokenizer e of Some enc \<Rightarrow> enc t | None \<Rightarrow> (int (length t) + 3) div 4)"

definition hashContent :: "env \<Rightarrow> jstring \<Rightarrow> string" where
  "hashContent e c = take 16 (computeContentHash e c)"

text \<open>
  \<^verbatim>\<open>create\<close>; \<open>None\<close> is the \<^verbatim>\<open>Error("Fragment content is required")\<close> it throws. The
  identifier is random in the source and a parameter here.
\<close>

definition create :: "env \<Rightarrow> string \<Rightarrow> 'a params_scheme \<Rightarrow> draft option" where
  "create e newId p =
     (let rawContent = trim (case p_content p of None \<Rightarrow> [] | Some c \<Rightarrow> c) in
      if rawContent = [] then None
      else
        let redactedContent = redactPII rawContent;
            truncated = truncate_content redactedContent;
            ty = (case p_type p of None \<Rightarrow> Fact | Some t \<Rightarrow> t);
            imp = (case p_importance p of
                     None \<Rightarrow> (if IMPORTANCE_WEIGHT ty = 0 then 0.5 else IMPORTANCE_WEIGHT ty)
                   | Some x \<Rightarrow> x);
            kws = (case p_keywords p of
                     None \<Rightarrow> extractKeywords e truncated
                   | Some ks \<Rightarrow> if ks = [] then extractKeywords e truncated else map toLowerCase ks)
        in Some \<lparr>d_id = newId,
                 d_content = truncated,
                 d_topic = or_default (p_topic p) ''general'',
                 d_keywords = kws,
                 d_type = ty,
                 d_importance = imp,
                 d_source = (case p_source p of None \<Rightarrow> None | Some x \<Rightarrow> if x = [] then None else Some x),
                 d_linked_to = (case p_linkedTo p of None \<Rightarrow> [] | Some l \<Rightarrow> l),
                 d_agent_id = or_default (p_agentId p) ''default'',
                 d_is_anchor = (case p_isAnchor p of None \<Rightarrow> False | Some b \<Rightarrow> b),
                 d_ttl_tier = inferTTL ty imp,
                 d_content_hash = hashContent e truncated,
                 d_estimated_tokens = countTokens e truncated\<rparr>)"

section \<open>FragmentStore: queries and access counters\<close>

definition as_hit :: "fragment \<Rightarrow> real option \<Rightarrow> relation option \<Rightarrow> hit" where
  "as_hit r sim rel =
     \<lparr>frag_id = frag_id r, content = content r, topic = topic r, kw_list = kw_list r,
      frag_type = frag_type r, importance = importance r, content_hash = content_hash r,
      source = source r, linked_to = linked_to r, agent_id = agent_id r,
      access_count = access_count r, accessed_at = accessed_at r, created_at = created_at r,
      ttl_tier = ttl_tier r, estimated_tokens = estimated_tokens r,
      utility_score = utility_score r, verified_at = verified_at r, embedding = embedding r,
      is_anchor = is_anchor r, similarity = sim, link_relation = rel, stale_days = None\<rparr>"

definition superseded :: "db \<Rightarrow> string \<Rightarrow> bool" where
  "superseded d i =
     list_ex (\<lambda>l. from_id l = i \<and> relation_type l = SupersededBy) (fragment_links d)"

text \<open>
  \<^verbatim>\<open>searchByKeywords\<close> of the store: array overlap, the optional predicates that are
  truthy, no row that is the source of a \<^verbatim>\<open>superseded_by\<close> edge; by importance, then
  by creation time, both descending.
\<close>

definition store_searchByKeywords ::
  "string list \<Rightarrow> ftype option \<Rightarrow> string option \<Rightarrow> real option \<Rightarrow> nat \<Rightarrow> string \<Rightarrow> db \<Rightarrow> hit list" where
  "store_searchByKeywords kws ty tp minImportance lmt agentId d =
     map (\<lambda>r. as_hit r None None)
       (take lmt
         (sort_by (\<lambda>a b. importance a > importance b \<or>
                          (importance a = importance b \<and> created_at a \<ge> created_at b))
           (filter (\<lambda>r. list_ex (\<lambda>k. k \<in> set kws) (kw_list r) \<and>
                          (case ty of None \<Rightarrow> True | Some t \<Rightarrow> frag_type r = t) \<and>
                          (case tp of None \<Rightarrow> True | Some t \<Rightarrow> t = [] \<or> topic r = t) \<and>
                          (case minImportance of None \<Rightarrow> True | Some m \<Rightarrow> m = 0 \<or> importance r \<ge> m) \<and>
                          \<not> superseded d (frag_id r))
             (filter (visible (safe_agent agentId)) (fragments d)))))"

definition nulls_last_desc :: "int option \<Rightarrow> int option \<Rightarrow> bool" where
  "nulls_last_desc a b =
     (case b of None \<Rightarrow> True | Some y \<Rightarrow> (case a of None \<Rightarrow> False | Some x \<Rightarrow> x \<ge> y))"

definition getByIds :: "string list \<Rightarrow> string \<Rightarrow> db \<Rightarrow> hit list" where
  "getByIds ids agentId d =
     (if ids = [] then []
      else map (\<lambda>r. as_hit r None None)
             (sort_by (\<lambda>a b. importance a > importance b \<or>
                              (importance a = importance b \<and>
                               nulls_last_desc (accessed_at a) (accessed_at b)))
               (filter (\<lambda>r. frag_id r \<in> set ids)
                 (filter (visible (safe_agent agentId)) (fragments d)))))"

definition row_similarity :: "env \<Rightarrow> vec \<Rightarrow> fragment \<Rightarrow> real" where
  "row_similarity e q r = (case embedding r of None \<Rightarrow> 0 | Some v \<Rightarrow> cosine_similarity e v q)"

definition searchBySemantic :: "env \<Rightarrow> vec \<Rightarrow> nat \<Rightarrow> real \<Rightarrow> string \<Rightarrow> db \<Rightarrow> hit list" where
  "searchBySemantic e q lmt minSimilarity agentId d =
     map (\<lambda>r. as_hit r (Some (row_similarity e q r)) None)
       (take lmt
         (sort_by (\<lambda>a b. row_similarity e q a \<ge> row_similarity e q b)
           (filter (\<lambda>r. embedding r \<noteq> None \<and> row_similarity e q r \<ge> minSimilarity \<and>
                          \<not> superseded d (frag_id r))
             (filter (visible (safe_agent agentId)) (fragments d)))))"

definition incrementAccess :: "env \<Rightarrow> string list \<Rightarrow> string \<Rightarrow> db \<Rightarrow> db" where
  "incrementAccess e ids agentId d =
     (if ids = [] then d
      else d\<lparr>fragments :=
               map (\<lambda>r. if frag_id r \<in> set ids \<and> visible (safe_agent agentId) r
                         then r\<lparr>access_count := access_count r + 1, accessed_at := Some (now e)\<rparr>
                         else r) (fragments d)\<rparr>)"

text \<open>
  \<^verbatim>\<open>getLinkedFragments\<close>. An empty list of ids is answered without a query. Otherwise
  one of two statements is sent, and both have the form
  \<^verbatim>\<open>SELECT DISTINCT f.id, ..., l.relation_type ... ORDER BY CASE l.relation_type WHEN
  'resolved_by' THEN 1 WHEN 'caused_by' THEN 2 ELSE 3 END, f.importance DESC\<close>. The
  \<^verbatim>\<open>CASE\<close> expression is not in the select list, and PostgreSQL refuses a
  \<^verbatim>\<open>SELECT DISTINCT\<close> whose \<^verbatim>\<open>ORDER BY\<close> expressions are not all in the select list,
  whatever the rows and the parameters: the call raises.
\<close>

definition getLinkedFragments ::
  "string list \<Rightarrow> relation option \<Rightarrow> string \<Rightarrow> db \<Rightarrow> db_error + hit list" where
  "getLinkedFragments fromIds relationType agentId d =
     (if fromIds = [] then Inr [] else Inl InvalidColumnReference)"


section \<open>FragmentSearch\<close>

record query =
  q_keywords :: "string list"
  q_topic :: "string option"
  q_type :: "ftype option"
  q_text :: "jstring option"
  q_tokenBudget :: "int option"
  q_minImportance :: "real option"
  q_fragmentCount :: "nat option"

text \<open>
  What \<^verbatim>\<open>search\<close> and \<^verbatim>\<open>recall\<close> return. The search path is the list of its
  stages with their counts (the source joins them into one string).
\<close>

record search_result =
  res_fragments :: "hit list"
  totalTokens :: int
  searchPath :: "(string \<times> nat) list"
  res_count :: nat

definition searchL1 :: "query \<Rightarrow> redis \<Rightarrow> string list" where
  "searchL1 q rd =
     (let sets =
            (if q_keywords q \<noteq> [] then [index_searchByKeywords (q_keywords q) 3 rd] else []) @
            (case q_topic q of None \<Rightarrow> [] | Some t \<Rightarrow> if t = [] then [] else [searchByTopic t rd]) @
            (case q_type q of None \<Rightarrow> [] | Some t \<Rightarrow> [searchByType t rd])
      in case sets of
           [] \<Rightarrow> getRecent 20 rd
         | [x] \<Rightarrow> remdups x
         | x # xs \<Rightarrow> filter (\<lambda>i. list_all (\<lambda>t. i \<in> set t) xs) (remdups x))"

definition tryHotCache :: "string list \<Rightarrow> redis \<Rightarrow> hit list" where
  "tryHotCache ids rd =
     concat (map (\<lambda>i. case getCachedFragment i rd of
                         None \<Rightarrow> []
                       | Some c \<Rightarrow> if content c = [] then [] else [c]) (take 30 ids))"

text \<open>
  \<^verbatim>\<open>_searchL2\<close> passes no agent to the store, so both of its queries run as
  \<^verbatim>\<open>default\<close>.
\<close>

definition searchL2 :: "query \<Rightarrow> string list \<Rightarrow> db \<Rightarrow> hit list" where
  "searchL2 q excludeIds d =
     (let results =
            (if q_keywords q \<noteq> [] then
               store_searchByKeywords (q_keywords q) (q_type q) (q_topic q)
                 (Some (case q_minImportance q of None \<Rightarrow> 0.1 | Some m \<Rightarrow> if m = 0 then 0.1 else m))
                 30 ''default'' d
             else []);
          missingIds = filter (\<lambda>i. i \<notin> frag_id ` set results) excludeIds
      in if excludeIds \<noteq> [] \<and> missingIds \<noteq> [] then results @ getByIds missingIds ''default'' d
         else results)"

definition searchL3 :: "env \<Rightarrow> jstring \<Rightarrow> db \<Rightarrow> hit list" where
  "searchL3 e txt d =
     (case generateEmbedding e txt of
        None \<Rightarrow> []
      | Some v \<Rightarrow> searchBySemantic e v 10 0.3 ''default'' d)"

text \<open>
  \<^verbatim>\<open>_computeRankScore\<close> with the weights 0.6 and 0.4 of \<^verbatim>\<open>MEMORY_CONFIG\<close>; a row
  always has its creation time.
\<close>

definition computeRankScore :: "env \<Rightarrow> 'a fragment_scheme \<Rightarrow> real" where
  "computeRankScore e f =
     (let ageDays = real_of_int (now e - created_at f) / 86400000;
          recency = max 0 (1 - ageDays / 90)
      in importance f * 0.6 + recency * 0.4)"

definition truthy :: "real option \<Rightarrow> bool" where
  "truthy v = (case v of None \<Rightarrow> False | Some x \<Rightarrow> x \<noteq> 0)"

fun dedup_insert :: "hit \<Rightarrow> hit list \<Rightarrow> hit list" where
  "dedup_insert f [] = [f]"
| "dedup_insert f (g # gs) =
     (if frag_id g = frag_id f then
        (if truthy (similarity f) \<and>
            (\<not> truthy (similarity g) \<or> or_zero (similarity f) > or_zero (similarity g))
         then f # gs else g # gs)
      else g # dedup_insert f gs)"

definition rank :: "env \<Rightarrow> nat \<Rightarrow> hit list \<Rightarrow> hit list" where
  "rank e fragmentCount fs =
     (if fragmentCount \<ge> 100 then sort_by (\<lambda>a b. computeRankScore e a \<ge> computeRankScore e b) fs
      else sort_by (\<lambda>a b. importance a \<ge> importance b) fs)"

definition deduplicate :: "env \<Rightarrow> hit list \<Rightarrow> nat \<Rightarrow> hit list" where
  "deduplicate e fs fragmentCount = rank e fragmentCount (fold dedup_insert fs [])"

text \<open>
  \<^verbatim>\<open>_trimToTokenBudget\<close>: the budget is turned into characters
  (\<^verbatim>\<open>CHARS_PER_TOKEN = 4\<close>) and each fragment costs the length of its content; the loop
  stops at the first fragment that does not fit.
\<close>

fun trim_loop :: "int \<Rightarrow> int \<Rightarrow> hit list \<Rightarrow> hit list" where
  "trim_loop charBudget usedChars [] = []"
| "trim_loop charBudget usedChars (f # fs) =
     (let cost = int (length (content f)) in
      if usedChars + cost > charBudget then []
      else f # trim_loop charBudget (usedChars + cost) fs)"

definition trimToTokenBudget :: "hit list \<Rightarrow> int \<Rightarrow> hit list" where
  "trimToTokenBudget fs tokenBudget = trim_loop (tokenBudget * 4) 0 fs"

definition estimateTokens :: "hit list \<Rightarrow> int" where
  "estimateTokens fs = (sum_list (map (\<lambda>f. int (length (content f))) fs) + 3) div 4"

text \<open>
  \<^verbatim>\<open>search\<close>. The access counters and the hot cache are updated without being awaited
  in the source; here they are applied before the result is returned.
\<close>

definition search :: "env \<Rightarrow> query \<Rightarrow> db \<times> redis \<Rightarrow> search_result \<times> db \<times> redis" where
  "search e q st =
     (let d = fst st; rd = snd st;
          tokenBudget = (case q_tokenBudget q of None \<Rightarrow> 1000 | Some b \<Rightarrow> if b = 0 then 1000 else b);
          l1Ids = searchL1 q rd;
          cached = (if l1Ids \<noteq> [] then tryHotCache l1Ids rd else []);
          path1 = (if l1Ids \<noteq> [] then
                     [(''L1'', length l1Ids)] @ (if cached \<noteq> [] then [(''HotCache'', length cached)] else [])
                   else []);
          l2Results = (if length cached < 3 then searchL2 q l1Ids d else []);
          path2 = path1 @ (if l2Results \<noteq> [] then [(''L2'', length l2Results)] else []);
          cand2 = cached @ l2Results;
          l3Results = (case q_text q of
                         None \<Rightarrow> []
                       | Some txt \<Rightarrow>
                           if length cand2 < 3 \<and> txt \<noteq> [] \<and> openai_api_key e
                           then searchL3 e txt d else []);
          path3 = path2 @ (if l3Results \<noteq> [] then [(''L3'', length l3Results)] else []);
          unique = deduplicate e (cand2 @ l3Results)
                     (case q_fragmentCount q of None \<Rightarrow> 0 | Some n \<Rightarrow> n);
          trimmed = trimToTokenBudget unique tokenBudget;
          d' = (if trimmed \<noteq> [] then incrementAccess e (map frag_id trimmed) ''default'' d else d);
          rd' = (if trimmed \<noteq> [] then fold (\<lambda>f r. cacheFragment (frag_id f) f r) trimmed rd else rd)
      in (\<lparr>res_fragments = trimmed, totalTokens = estimateTokens trimmed,
            searchPath = path3, res_count = length trimmed\<rparr>, d', rd'))"


section \<open>MemoryManager\<close>

datatype failure = ContentRequired | DbError db_error

record conflict =
  existing_id :: string
  existing_content :: jstring
  conflict_similarity :: real

record remember_result =
  r_id :: string
  r_keywords :: "string list"
  r_ttl_tier :: string
  r_scope :: string
  r_conflicts :: "conflict list"

fun tier_name :: "tier \<Rightarrow> string" where
  "tier_name Hot = ''hot''"
| "tier_name Warm = ''warm''"
| "tier_name Cold = ''cold''"
| "tier_name Permanent = ''permanent''"

text \<open>
  \<^verbatim>\<open>_detectConflicts\<close>: a search with the stored content as its text, in the topic,
  with a budget of 500; a conflict is another fragment of similarity above 0.8.
\<close>

definition detectConflicts ::
  "env \<Rightarrow> jstring \<Rightarrow> string \<Rightarrow> string \<Rightarrow> db \<times> redis \<Rightarrow> conflict list \<times> db \<times> redis" where
  "detectConflicts e c tp newId st =
     (let (res, d, rd) =
            search e \<lparr>q_keywords = [], q_topic = Some tp, q_type = None, q_text = Some c,
                      q_tokenBudget = Some 500, q_minImportance = None, q_fragmentCount = None\<rparr> st
      in (map (\<lambda>f. \<lparr>existing_id = frag_id f, existing_content = take 100 (content f),
                      conflict_similarity = or_zero (similarity f)\<rparr>)
            (filter (\<lambda>f. frag_id f \<noteq> newId \<and> or_zero (similarity f) > 0.8) (res_fragments res)),
          d, rd))"

fun js_includes :: "jstring \<Rightarrow> jstring \<Rightarrow> bool" where
  "js_includes [] pat = (pat = [])"
| "js_includes (c # cs) pat = (take (length pat) (c # cs) = pat \<or> js_includes cs pat)"

text \<open>
  \<^verbatim>\<open>_autoLinkOnRemember\<close>. The new fragment object carries no creation time, so its
  date is the current time. An edge that cannot be created is skipped.
\<close>

definition autoLink_relation :: "env \<Rightarrow> draft \<Rightarrow> fragment \<Rightarrow> real \<Rightarrow> relation" where
  "autoLink_relation e new existing sim =
     (let rel = (if d_type new = Error \<and> frag_type existing = Error \<and>
                    (js_includes (d_content new) [91, 54644, 44208, 46120, 93] \<or>
                     js_includes (d_content new) (js ''resolved''))
                 then ResolvedBy else Related)
      in if d_type new = frag_type existing \<and> sim > 0.85 \<and> now e > created_at existing
         then SupersededBy else rel)"

definition autoLinkOnRemember :: "env \<Rightarrow> draft \<Rightarrow> string \<Rightarrow> string \<Rightarrow> db \<Rightarrow> db" where
  "autoLinkOnRemember e new newId agentId d =
     (case filter (\<lambda>r. frag_id r = newId \<and> embedding r \<noteq> None)
             (filter (visible (safe_agent agentId)) (fragments d)) of
        [] \<Rightarrow> d
      | me # _ \<Rightarrow>
          (case embedding me of
             None \<Rightarrow> d
           | Some v \<Rightarrow>
               fold (\<lambda>existing d'.
                       case createLink (frag_id existing) newId
                              (autoLink_relation e new existing (row_similarity e v existing)) agentId d' of
                         Inl err \<Rightarrow> d'
                       | Inr d'' \<Rightarrow> d'')
                 (take 3
                   (sort_by (\<lambda>a b. row_similarity e v a \<ge> row_similarity e v b)
                     (filter (\<lambda>r. frag_id r \<noteq> newId \<and> topic r = d_topic new \<and> embedding r \<noteq> None \<and>
                                    row_similarity e v r > 0.7)
                       (filter (visible (safe_agent agentId)) (fragments d)))))
                 d))"

text \<open>
  \<^verbatim>\<open>remember\<close>. With scope \<^verbatim>\<open>session\<close> and a session id the fragment goes to the
  working memory only. Otherwise: create, insert, index, link to the ids supplied (a
  failing link is ignored), scan for conflicts, auto-link, and enqueue for evaluation
  unless the type is \<^verbatim>\<open>fact\<close>, \<^verbatim>\<open>procedure\<close> or \<^verbatim>\<open>error\<close>.
\<close>

definition remember ::
  "env \<Rightarrow> string \<Rightarrow> params \<Rightarrow> db \<times> redis \<Rightarrow> failure + (remember_result \<times> db \<times> redis)" where
  "remember e newId p st =
     (let d = fst st; rd = snd st;
          scope = or_default (p_scope p) ''permanent'';
          agentId = or_default (p_agentId p) ''default''
      in if scope = ''session'' \<and> or_default (p_sessionId p) [] \<noteq> [] then
           (case create e newId p of
              None \<Rightarrow> Inl ContentRequired
            | Some fragment \<Rightarrow>
                Inr (\<lparr>r_id = d_id fragment, r_keywords = d_keywords fragment,
                      r_ttl_tier = ''session'', r_scope = ''session'', r_conflicts = []\<rparr>,
                     d, addToWorkingMemory e (or_default (p_sessionId p) []) fragment rd))
         else
           (case create e newId (p\<lparr>p_isAnchor := Some (case p_isAnchor p of None \<Rightarrow> False | Some b \<Rightarrow> b)\<rparr>) of
              None \<Rightarrow> Inl ContentRequired
            | Some fragment0 \<Rightarrow>
               (let fragment = fragment0\<lparr>d_agent_id := agentId\<rparr> in
                case insert_store e fragment d of
                  Inl err \<Rightarrow> Inl (DbError err)
                | Inr (i, d1) \<Rightarrow>
                   (let rd1 = index_fragment e i (d_keywords fragment) (d_topic fragment)
                                (d_type fragment) (p_sessionId p) rd;
                        d2 = fold (\<lambda>linkId d'. case createLink i linkId Related agentId d' of
                                                  Inl err \<Rightarrow> d' | Inr d'' \<Rightarrow> d'')
                               (d_linked_to fragment) d1;
                        (conflicts, d3, rd3) =
                          detectConflicts e (d_content fragment) (d_topic fragment) i (d2, rd1);
                        d4 = autoLinkOnRemember e fragment i agentId d3;
                        rd4 = (if d_type fragment = Fact \<or> d_type fragment = Procedure \<or>
                                  d_type fragment = Error then rd3
                               else pushToQueue \<lparr>job_fragmentId = i, job_agentId = agentId,
                                                  job_type = d_type fragment,
                                                  job_content = d_content fragment\<rparr> rd3)
                    in Inr (\<lparr>r_id = i, r_keywords = d_keywords fragment,
                             r_ttl_tier = tier_name (d_ttl_tier fragment),
                             r_scope = ''permanent'', r_conflicts = conflicts\<rparr>, d4, rd4)))))"


record recall_params =
  rc_keywords :: "string list option"
  rc_topic :: "string option"
  rc_type :: "ftype option"
  rc_text :: "jstring option"
  rc_tokenBudget :: "int option"
  rc_minImportance :: "real option"
  rc_includeLinks :: "bool option"
  rc_linkRelationType :: "relation option"
  rc_fragmentCount :: "nat option"
  rc_threshold :: "real option"
  rc_agentId :: "string option"

text \<open>The stale thresholds of \<^verbatim>\<open>MEMORY_CONFIG\<close>, in days.\<close>

definition staleThreshold :: "ftype \<Rightarrow> int" where
  "staleThreshold ty =
     (if ty = Procedure then 30 else if ty = Fact then 60 else if ty = Decision then 90 else 60)"

definition annotate_stale :: "env \<Rightarrow> hit \<Rightarrow> hit" where
  "annotate_stale e f =
     (let staleDays = staleThreshold (frag_type f);
          daysSince = (case verified_at f of
                         None \<Rightarrow> staleDays + 1
                       | Some v \<Rightarrow> if v = 0 then staleDays + 1 else (now e - v) div 86400000)
      in if daysSince \<ge> staleDays then f\<lparr>stale_days := Some daysSince\<rparr> else f)"

text \<open>
  \<^verbatim>\<open>recall\<close>: the search with its budget; then, unless \<^verbatim>\<open>includeLinks\<close> is
  \<^verbatim>\<open>false\<close> or nothing was found, the linked fragments of the results appended (those
  not yet present); the whole list ranked again, annotated and filtered by the similarity
  threshold. \<^verbatim>\<open>totalTokens\<close> stays as the search computed it. An exception of
  \<^verbatim>\<open>getLinkedFragments\<close> is not caught: the call rejects, and what the search wrote
  (access counters, cache) stays written.
\<close>

fun push_new :: "hit list \<Rightarrow> hit list \<Rightarrow> hit list" where
  "push_new acc [] = acc"
| "push_new acc (lf # lfs) =
     (if frag_id lf \<in> frag_id ` set acc then push_new acc lfs else push_new (acc @ [lf]) lfs)"

definition recall ::
  "env \<Rightarrow> recall_params \<Rightarrow> db \<times> redis \<Rightarrow> (db_error + search_result) \<times> db \<times> redis" where
  "recall e p st =
     (let agentId = or_default (rc_agentId p) ''default'';
          fragmentCount = (case rc_fragmentCount p of None \<Rightarrow> 0 | Some n \<Rightarrow> n);
          (res, d, rd) =
            search e \<lparr>q_keywords = (case rc_keywords p of None \<Rightarrow> [] | Some k \<Rightarrow> k),
                      q_topic = rc_topic p, q_type = rc_type p, q_text = rc_text p,
                      q_tokenBudget = Some (case rc_tokenBudget p of None \<Rightarrow> 1000
                                            | Some b \<Rightarrow> if b = 0 then 1000 else b),
                      q_minImportance = rc_minImportance p,
                      q_fragmentCount = Some fragmentCount\<rparr> st;
          linked = (if rc_includeLinks p \<noteq> Some False \<and> res_fragments res \<noteq> [] then
                      (case getLinkedFragments (map frag_id (res_fragments res))
                              (rc_linkRelationType p) agentId d of
                         Inl err \<Rightarrow> Inl err
                       | Inr linkedFrags \<Rightarrow>
                           (let fs = push_new (res_fragments res) linkedFrags
                            in Inr (res\<lparr>res_fragments := fs, res_count := length fs\<rparr>)))
                    else Inr res)
      in case linked of
           Inl err \<Rightarrow> (Inl err, d, rd)
         | Inr res1 \<Rightarrow>
            (let ranked = map (annotate_stale e) (rank e fragmentCount (res_fragments res1));
                 res2 = res1\<lparr>res_fragments := ranked\<rparr>
             in case rc_threshold p of
                  None \<Rightarrow> (Inr res2, d, rd)
                | Some th \<Rightarrow>
                    (let kept = filter (\<lambda>f. case similarity f of None \<Rightarrow> True | Some x \<Rightarrow> x \<ge> th)
                                  ranked
                     in (Inr (res2\<lparr>res_fragments := kept, res_count := length kept\<rparr>), d, rd))))"

record forget_params =
  fg_id :: "string option"
  fg_topic :: "string option"
  fg_force :: bool
  fg_agentId :: "string option"

record forget_result =
  deleted :: nat
  protected :: nat
  not_found :: bool

definition forget_one ::
  "bool \<Rightarrow> string \<Rightarrow> string \<Rightarrow> (nat \<times> nat) \<times> db \<times> redis \<Rightarrow> (nat \<times> nat) \<times> db \<times> redis" where
  "forget_one force agentId tid acc =
     (let ((del, prot), d, rd) = acc in
      case getById tid agentId d of
        None \<Rightarrow> acc
      | Some frag \<Rightarrow>
          if ttl_tier frag = Permanent \<and> \<not> force then ((del, prot + 1), d, rd)
          else
            (let rd1 = deindex (frag_id frag) (kw_list frag) (topic frag) (frag_type frag) rd;
                 (ok, d1) = delete_store (frag_id frag) agentId d
             in ((if ok then del + 1 else del, prot), d1, rd1)))"

definition forget_topic :: "forget_params \<Rightarrow> string \<Rightarrow> nat \<Rightarrow> db \<times> redis \<Rightarrow> forget_result \<times> db \<times> redis" where
  "forget_topic p agentId del st =
     (case fg_topic p of
        None \<Rightarrow> (\<lparr>deleted = del, protected = 0, not_found = False\<rparr>, st)
      | Some tp \<Rightarrow>
          if tp = [] then (\<lparr>deleted = del, protected = 0, not_found = False\<rparr>, st)
          else
            (let ((del', prot), d, rd) =
                   fold (forget_one (fg_force p) agentId) (searchByTopic tp (snd st)) ((del, 0), st)
             in (\<lparr>deleted = del', protected = prot, not_found = False\<rparr>, d, rd)))"

text \<open>
  \<^verbatim>\<open>forget\<close>: by id (a permanent row needs \<^verbatim>\<open>force\<close>), then by topic through the
  index.
\<close>

definition forget :: "forget_params \<Rightarrow> db \<times> redis \<Rightarrow> forget_result \<times> db \<times> redis" where
  "forget p st =
     (let agentId = or_default (fg_agentId p) ''default'' in
      if or_default (fg_id p) [] \<noteq> [] then
        (case getById (or_default (fg_id p) []) agentId (fst st) of
           None \<Rightarrow> (\<lparr>deleted = 0, protected = 0, not_found = True\<rparr>, st)
         | Some frag \<Rightarrow>
             if ttl_tier frag = Permanent \<and> \<not> fg_force p then
               (\<lparr>deleted = 0, protected = 1, not_found = False\<rparr>, st)
             else
               (let rd1 = deindex (frag_id frag) (kw_list frag) (topic frag) (frag_type frag) (snd st);
                    (ok, d1) = delete_store (frag_id frag) agentId (fst st)
                in forget_topic p agentId (if ok then 1 else 0) (d1, rd1)))
      else forget_topic p agentId 0 st)"

record link_params =
  lp_fromId :: string
  lp_toId :: string
  lp_relationType :: "relation option"
  lp_agentId :: "string option"

text \<open>
  \<^verbatim>\<open>link\<close>: both fragments must be visible to the caller; the edge is created; and when
  the relation is \<^verbatim>\<open>resolved_by\<close> and the target is an error fragment of importance
  above 0.5, the target is updated with \<^verbatim>\<open>{importance: 0.5}\<close>. \<open>None\<close> is the result
  \<^verbatim>\<open>{linked: false}\<close>, \<open>Some r\<close> the result \<^verbatim>\<open>{linked: true, relationType: r}\<close>.
\<close>

definition link :: "env \<Rightarrow> link_params \<Rightarrow> db \<Rightarrow> db_error + (relation option \<times> db)" where
  "link e p d =
     (let agentId = or_default (lp_agentId p) ''default'' in
      case getById (lp_fromId p) agentId d of
        None \<Rightarrow> Inr (None, d)
      | Some fromFrag \<Rightarrow>
         (case getById (lp_toId p) agentId d of
            None \<Rightarrow> Inr (None, d)
          | Some toFrag \<Rightarrow>
             (let relationType = (case lp_relationType p of None \<Rightarrow> Related | Some r \<Rightarrow> r) in
              case createLink (lp_fromId p) (lp_toId p) relationType agentId d of
                Inl err \<Rightarrow> Inl err
              | Inr d1 \<Rightarrow>
                  if relationType = ResolvedBy \<and> frag_type toFrag = Error \<and> importance toFrag > 0.5
                  then (case update_store e (lp_toId p) (no_updates\<lparr>u_importance := Some 0.5\<rparr>) agentId d1 of
                          Inl err \<Rightarrow> Inl err
                        | Inr (r, d2) \<Rightarrow> Inr (Some relationType, d2))
                  else Inr (Some relationType, d1))))"

record amend_params =
  am_id :: "string option"
  am_content :: "jstring option"
  am_topic :: "string option"
  am_keywords :: "string list option"
  am_type :: "ftype option"
  am_importance :: "real option"
  am_isAnchor :: "bool option"
  am_supersedes :: bool
  am_agentId :: "string option"

text \<open>
  What \<^verbatim>\<open>amend\<close> returns: \<^verbatim>\<open>{updated: false, error}\<close>, \<^verbatim>\<open>{updated: false, merged:
  true, existingId}\<close> or \<^verbatim>\<open>{updated: true, fragment}\<close>.
\<close>

datatype amend_result = AmendError string | AmendMerged string | AmendUpdated fragment

definition amend_updates :: "amend_params \<Rightarrow> updates" where
  "amend_updates p =
     \<lparr>u_content = map_option truncate_content (am_content p),
      u_topic = am_topic p,
      u_keywords = map_option (map toLowerCase) (am_keywords p),
      u_type = am_type p,
      u_importance = am_importance p,
      u_is_anchor = am_isAnchor p\<rparr>"

definition amend ::
  "env \<Rightarrow> amend_params \<Rightarrow> db \<times> redis \<Rightarrow> db_error + (amend_result \<times> db \<times> redis)" where
  "amend e p st =
     (let d = fst st; rd = snd st in
      if or_default (am_id p) [] = [] then Inr (AmendError ''id is required'', st)
      else
        (let i = or_default (am_id p) [];
             agentId = or_default (am_agentId p) ''default''
         in case getById i agentId d of
              None \<Rightarrow> Inr (AmendError ''Fragment not found'', st)
            | Some existing \<Rightarrow>
               (case update_store e i (amend_updates p) agentId d of
                  Inl err \<Rightarrow> Inl err
                | Inr (UpdNull, d1) \<Rightarrow> Inr (AmendError ''Update failed'', d1, rd)
                | Inr (UpdMerged existingId, d1) \<Rightarrow> Inr (AmendMerged existingId, d1, rd)
                | Inr (UpdRow result, d1) \<Rightarrow>
                   (let rd' = index_fragment e (frag_id result) (kw_list result) (topic result)
                                 (frag_type result) None
                                 (deindex (frag_id existing) (kw_list existing) (topic existing)
                                    (frag_type existing) rd)
                    in if am_supersedes p then
                         (case createLink (frag_id existing) (frag_id result) Related agentId d1 of
                            Inl err \<Rightarrow> Inl err
                          | Inr d2 \<Rightarrow>
                             (case update_store e (frag_id existing) (no_updates\<lparr>u_importance := Some 0.3\<rparr>)
                                     agentId d2 of
                                Inl err \<Rightarrow> Inl err
                              | Inr (r, d3) \<Rightarrow> Inr (AmendUpdated result, d3, rd')))
                       else Inr (AmendUpdated result, d1, rd')))))"


section \<open>FragmentStore: the maintenance sweeps\<close>

text \<open>The sweeps run as \<^verbatim>\<open>system\<close>, to which the policy shows every row.\<close>

definition day :: int where
  "day = 86400000"

definition update_where :: "(fragment \<Rightarrow> bool) \<Rightarrow> (fragment \<Rightarrow> fragment) \<Rightarrow> db \<Rightarrow> db" where
  "update_where P g d = d\<lparr>fragments := map (\<lambda>r. if P r then g r else r) (fragments d)\<rparr>"

definition expired :: "env \<Rightarrow> fragment \<Rightarrow> bool" where
  "expired e r \<longleftrightarrow>
     importance r < 0.1 \<and> ttl_tier r \<noteq> Permanent \<and> \<not> is_anchor r \<and>
     (case accessed_at r of None \<Rightarrow> True | Some a \<Rightarrow> a < now e - 90 * day) \<and>
     created_at r < now e - 90 * day \<and>
     linked_to r \<noteq> [] \<and> length (linked_to r) < 2"

definition deleteExpired :: "env \<Rightarrow> db \<Rightarrow> nat \<times> db" where
  "deleteExpired e d = delete_rows (expired e) d"

definition decayImportance :: "env \<Rightarrow> db \<Rightarrow> db" where
  "decayImportance e d =
     update_where
       (\<lambda>r. ttl_tier r \<noteq> Permanent \<and> frag_type r \<noteq> Preference \<and> \<not> is_anchor r \<and>
             (case accessed_at r of None \<Rightarrow> True | Some a \<Rightarrow> a < now e - day))
       (\<lambda>r. r\<lparr>importance := importance r * 0.995\<rparr>) d"

definition transitionTTL :: "env \<Rightarrow> db \<Rightarrow> db" where
  "transitionTTL e d =
     (let d = update_where (\<lambda>r. frag_type r = Preference \<and> ttl_tier r \<noteq> Permanent)
                (\<lambda>r. r\<lparr>ttl_tier := Permanent\<rparr>) d;
          d = update_where (\<lambda>r. length (linked_to r) \<ge> 5 \<and> ttl_tier r \<noteq> Permanent)
                (\<lambda>r. r\<lparr>ttl_tier := Permanent\<rparr>) d;
          d = update_where (\<lambda>r. importance r \<ge> 0.8 \<and> ttl_tier r \<noteq> Permanent)
                (\<lambda>r. r\<lparr>ttl_tier := Permanent\<rparr>) d
      in update_where
           (\<lambda>r. ttl_tier r = Warm \<and>
                 (importance r < 0.3 \<or>
                  (accessed_at r = None \<and> created_at r < now e - 30 * day) \<or>
                  (case accessed_at r of None \<Rightarrow> False | Some a \<Rightarrow> a < now e - 30 * day)))
           (\<lambda>r. r\<lparr>ttl_tier := Cold\<rparr>) d)"

definition generateMissingEmbeddings :: "env \<Rightarrow> nat \<Rightarrow> db \<Rightarrow> nat \<times> db" where
  "generateMissingEmbeddings e batchSize d =
     (if \<not> openai_api_key e then (0, d)
      else
        fold (\<lambda>row (n, d'). case generateEmbedding e (content row) of
                               None \<Rightarrow> (n, d')
                             | Some v \<Rightarrow> (n + 1, update_where (\<lambda>r. frag_id r = frag_id row)
                                                    (\<lambda>r. r\<lparr>embedding := Some v\<rparr>) d'))
          (take batchSize
            (sort_by (\<lambda>a b. importance a \<ge> importance b)
              (filter (\<lambda>r. embedding r = None \<and> importance r > 0.5) (fragments d))))
          (0, d))"

section \<open>MemoryConsolidator\<close>

definition tier_count :: "tier \<Rightarrow> db \<Rightarrow> nat" where
  "tier_count t d = length (filter (\<lambda>r. ttl_tier r = t) (fragments d))"

text \<open>
  \<^verbatim>\<open>_transitionWithCount\<close>: half the sum, over the tiers present afterwards, of the
  change of their row counts.
\<close>

definition transitionWithCount :: "env \<Rightarrow> db \<Rightarrow> nat \<times> db" where
  "transitionWithCount e d =
     (let d' = transitionTTL e d in
      (sum_list (map (\<lambda>t. nat \<bar>int (tier_count t d') - int (tier_count t d)\<bar>)
                   (filter (\<lambda>t. tier_count t d' > 0) [Hot, Warm, Cold, Permanent])) div 2,
       d'))"

text \<open>
  \<^verbatim>\<open>_mergeDuplicates\<close>. The query groups the rows by \<^verbatim>\<open>content_hash\<close> and lists each
  group's ids by importance descending, then by creation time ascending
  (\<^verbatim>\<open>array_agg(id ORDER BY importance DESC, created_at ASC)\<close>); the common table
  expression \<^verbatim>\<open>dups\<close> keeps the groups of more than one row (in the order of their hashes'
  last rows in the table), and at most 50 of them are read. The first id of a group is
  kept. For each other id: the kept id is appended to that row's own \<^verbatim>\<open>linked_to\<close>, every
  occurrence of that id in any \<^verbatim>\<open>linked_to\<close> is replaced by the kept id, and the row is
  deleted.
\<close>

definition merge_order :: "fragment \<Rightarrow> fragment \<Rightarrow> bool" where
  "merge_order a b \<longleftrightarrow>
     importance a > importance b \<or> (importance a = importance b \<and> created_at a \<le> created_at b)"

definition dup_ids :: "db \<Rightarrow> string \<Rightarrow> string list" where
  "dup_ids d h = map frag_id (sort_by merge_order (filter (\<lambda>r. content_hash r = h) (fragments d)))"

definition dups :: "db \<Rightarrow> string list list" where
  "dups d = filter (\<lambda>ids. length ids > 1) (map (dup_ids d) (remdups (map content_hash (fragments d))))"

definition dup_groups :: "db \<Rightarrow> string list list" where
  "dup_groups d = take 50 (dups d)"

definition array_replace :: "string list \<Rightarrow> string \<Rightarrow> string \<Rightarrow> string list" where
  "array_replace xs old new = map (\<lambda>x. if x = old then new else x) xs"

definition merge_one :: "string \<Rightarrow> string \<Rightarrow> db \<Rightarrow> db" where
  "merge_one keepId rid d =
     (let d = update_where (\<lambda>r. frag_id r = rid \<and> keepId \<notin> set (linked_to r))
                (\<lambda>r. r\<lparr>linked_to := linked_to r @ [keepId]\<rparr>) d;
          d = update_where (\<lambda>r. rid \<in> set (linked_to r))
                (\<lambda>r. r\<lparr>linked_to := array_replace (linked_to r) rid keepId\<rparr>) d
      in snd (delete_store rid ''system'' d))"

definition merge_group :: "string list \<Rightarrow> nat \<times> db \<Rightarrow> nat \<times> db" where
  "merge_group ids acc =
     (case ids of
        [] \<Rightarrow> acc
      | keepId # removeIds \<Rightarrow>
          fold (\<lambda>rid (merged, d). (merged + 1, merge_one keepId rid d)) removeIds acc)"

definition mergeDuplicates :: "db \<Rightarrow> nat \<times> db" where
  "mergeDuplicates d = fold merge_group (dup_groups d) (0, d)"

text \<open>
  The natural logarithm \<^verbatim>\<open>LN\<close> of the database.
\<close>

definition LN :: "real \<Rightarrow> real" where
  "LN x = ln x"

definition utility :: "fragment \<Rightarrow> real" where
  "utility r = importance r * (1 + LN (real_of_int (max (access_count r) 1)))"

definition updateUtilityScores :: "db \<Rightarrow> nat \<times> db" where
  "updateUtilityScores d =
     (length (filter (\<lambda>r. utility_score r \<noteq> utility r) (fragments d)),
      update_where (\<lambda>r. utility_score r \<noteq> utility r) (\<lambda>r. r\<lparr>utility_score := utility r\<rparr>) d)"

definition promoteAnchors :: "db \<Rightarrow> nat \<times> db" where
  "promoteAnchors d =
     (length (filter (\<lambda>r. \<not> is_anchor r \<and> access_count r \<ge> 10 \<and> importance r \<ge> 0.8) (fragments d)),
      update_where (\<lambda>r. \<not> is_anchor r \<and> access_count r \<ge> 10 \<and> importance r \<ge> 0.8)
        (\<lambda>r. r\<lparr>is_anchor := True\<rparr>) d)"

text \<open>
  \<^verbatim>\<open>_resolveContradiction\<close>, on the two rows as the caller read them: record the
  \<^verbatim>\<open>contradicts\<close> edge; then, when the first is the newer, halve the importance of the
  second unless the second is an anchor and point a \<^verbatim>\<open>superseded_by\<close> edge from the
  second to the first; otherwise halve the importance of the first and point the
  \<^verbatim>\<open>superseded_by\<close> edge from the first to the second.
\<close>

definition halve :: "string \<Rightarrow> db \<Rightarrow> db" where
  "halve i d = update_where (\<lambda>r. frag_id r = i) (\<lambda>r. r\<lparr>importance := importance r * 0.5\<rparr>) d"

definition resolveContradiction :: "fragment \<Rightarrow> fragment \<Rightarrow> db \<Rightarrow> db_error + db" where
  "resolveContradiction newFrag candidate d =
     (case createLink (frag_id newFrag) (frag_id candidate) Contradicts ''system'' d of
        Inl err \<Rightarrow> Inl err
      | Inr d1 \<Rightarrow>
          if created_at newFrag > created_at candidate then
            createLink (frag_id candidate) (frag_id newFrag) SupersededBy ''system''
              (if \<not> is_anchor candidate then halve (frag_id candidate) d1 else d1)
          else
            createLink (frag_id newFrag) (frag_id candidate) SupersededBy ''system''
              (halve (frag_id newFrag) d1))"


text \<open>
  The state \<^verbatim>\<open>_detectContradictions\<close> threads through its two loops: the database, the
  Redis keys, its counters and the newest creation time processed. Two fields are added
  for the model: \<open>gemini_calls\<close> counts the invocations of the language model, and
  \<open>aborted\<close> holds the exception that left the loops (what the statements before it
  wrote stays written).
\<close>

record detect_acc =
  acc_db :: db
  acc_redis :: redis
  found :: nat
  nliResolved :: nat
  nliSkipped :: nat
  latestProcessed :: "int option"
  gemini_calls :: nat
  aborted :: "db_error option"

definition mark_processed :: "fragment \<Rightarrow> detect_acc \<Rightarrow> detect_acc" where
  "mark_processed newFrag a =
     a\<lparr>latestProcessed :=
         (case latestProcessed a of
            None \<Rightarrow> Some (created_at newFrag)
          | Some t \<Rightarrow> if created_at newFrag > t then Some (created_at newFrag) else Some t)\<rparr>"

definition askGeminiContradiction :: "env \<Rightarrow> jstring \<Rightarrow> jstring \<Rightarrow> bool" where
  "askGeminiContradiction e a b = (case geminiCLIJson e a b of None \<Rightarrow> False | Some v \<Rightarrow> v)"

definition flagPotentialContradiction :: "env \<Rightarrow> fragment \<Rightarrow> fragment \<Rightarrow> redis \<Rightarrow> redis" where
  "flagPotentialContradiction e fragA fragB rd =
     (if ready rd then
        rd\<lparr>pending_contradictions := pending_contradictions rd @
             [\<lparr>idA = frag_id fragA, idB = frag_id fragB, contentA = content fragA,
               contentB = content fragB, flaggedAt = now e\<rparr>]\<rparr>
      else rd)"

text \<open>
  Stage 3 for one pair: without the Gemini command line the pair is queued when its
  similarity exceeds 0.92; with it the model is asked, and an exception of the resolution
  is caught and logged.
\<close>

definition escalate :: "env \<Rightarrow> fragment \<Rightarrow> fragment \<times> real \<Rightarrow> detect_acc \<Rightarrow> detect_acc" where
  "escalate e newFrag cs a =
     (if \<not> gemini_available e then
        (if snd cs > 0.92
         then a\<lparr>acc_redis := flagPotentialContradiction e newFrag (fst cs) (acc_redis a)\<rparr>
         else a)
      else
        (let a1 = a\<lparr>gemini_calls := gemini_calls a + 1\<rparr> in
         if askGeminiContradiction e (content newFrag) (content (fst cs)) then
           (case resolveContradiction newFrag (fst cs) (acc_db a1) of
              Inl err \<Rightarrow> a1
            | Inr d \<Rightarrow> mark_processed newFrag (a1\<lparr>acc_db := d, found := found a1 + 1\<rparr>))
         else mark_processed newFrag a1))"

definition contradicts_link :: "string \<Rightarrow> string \<Rightarrow> db \<Rightarrow> bool" where
  "contradicts_link a b d =
     list_ex (\<lambda>l. ((from_id l = a \<and> to_id l = b) \<or> (from_id l = b \<and> to_id l = a)) \<and>
                   relation_type l = Contradicts) (fragment_links d)"

text \<open>
  One candidate of one new fragment: skip a pair that has its \<^verbatim>\<open>contradicts\<close> edge;
  Stage 2 asks the NLI model when it has not failed for good, resolves at once on a
  verdict of contradiction without escalation, skips on a verdict of no contradiction
  without escalation, and otherwise falls to Stage 3.
\<close>

definition check_pair :: "env \<Rightarrow> fragment \<Rightarrow> fragment \<times> real \<Rightarrow> detect_acc \<Rightarrow> detect_acc" where
  "check_pair e newFrag cs a =
     (if aborted a \<noteq> None then a
      else if contradicts_link (frag_id newFrag) (frag_id (fst cs)) (acc_db a) then a
      else
        (case (if nli_failed e then None
               else detectContradiction (classifyNLI e (content newFrag) (content (fst cs)))) of
           None \<Rightarrow> escalate e newFrag cs a
         | Some v \<Rightarrow>
             if contradicts v \<and> \<not> needsEscalation v then
               (case resolveContradiction newFrag (fst cs) (acc_db a) of
                  Inl err \<Rightarrow> a\<lparr>aborted := Some err\<rparr>
                | Inr d \<Rightarrow>
                    mark_processed newFrag
                      (a\<lparr>acc_db := d, found := found a + 1, nliResolved := nliResolved a + 1\<rparr>))
             else if \<not> contradicts v \<and> \<not> needsEscalation v then
               mark_processed newFrag (a\<lparr>nliSkipped := nliSkipped a + 1\<rparr>)
             else escalate e newFrag cs a))"

text \<open>
  Stage 1 for one new fragment: the rows of its topic with an embedding whose cosine
  similarity to its own exceeds 0.85, the three most similar.
\<close>

definition candidates_for :: "env \<Rightarrow> fragment \<Rightarrow> db \<Rightarrow> (fragment \<times> real) list" where
  "candidates_for e newFrag d =
     (case concat (map (\<lambda>r. case embedding r of None \<Rightarrow> [] | Some v \<Rightarrow> [v])
                    (filter (\<lambda>r. frag_id r = frag_id newFrag) (fragments d))) of
        [] \<Rightarrow> []
      | v # _ \<Rightarrow>
          map (\<lambda>r. (r, row_similarity e v r))
            (take 3
              (sort_by (\<lambda>a b. row_similarity e v a \<ge> row_similarity e v b)
                (filter (\<lambda>r. frag_id r \<noteq> frag_id newFrag \<and> topic r = topic newFrag \<and>
                               embedding r \<noteq> None \<and> row_similarity e v r > 0.85)
                  (fragments d)))))"

definition check_new :: "env \<Rightarrow> fragment \<Rightarrow> detect_acc \<Rightarrow> detect_acc" where
  "check_new e newFrag a =
     (if aborted a \<noteq> None then a
      else fold (check_pair e newFrag) (candidates_for e newFrag (acc_db a)) a)"

text \<open>
  \<^verbatim>\<open>_detectContradictions\<close>. What a run stores under
  \<^verbatim>\<open>frag:contradiction_check_at\<close> is the \<^verbatim>\<open>created_at\<close> of a row as the driver returned
  it, a \<^verbatim>\<open>Date\<close>, which reaches Redis as its string form. The next run reads that string
  back and passes it as the parameter of \<^verbatim>\<open>created_at > $1\<close>; it is not a timestamp the
  database accepts, and the statement raises. So a run that finds a stored value ends at
  its first statement.
\<close>

definition detectContradictions :: "env \<Rightarrow> db \<times> redis \<Rightarrow> detect_acc" where
  "detectContradictions e st =
     (let d = fst st; rd = snd st;
          lastCheckAt = (if ready rd then contradiction_check_at rd else None);
          start = \<lparr>acc_db = d, acc_redis = rd, found = 0, nliResolved = 0, nliSkipped = 0,
                   latestProcessed = None, gemini_calls = 0, aborted = None\<rparr>
      in case lastCheckAt of
           Some t \<Rightarrow> start\<lparr>aborted := Some InvalidDatetime\<rparr>
         | None \<Rightarrow>
            (let newFrags =
                   take 20
                     (sort_by (\<lambda>a b. created_at a \<ge> created_at b)
                       (filter (\<lambda>r. embedding r \<noteq> None) (fragments d)));
                 a = fold (check_new e) newFrags start
             in if aborted a \<noteq> None then a
                else case latestProcessed a of
                       None \<Rightarrow> a
                     | Some t \<Rightarrow>
                         if ready (acc_redis a)
                         then a\<lparr>acc_redis := (acc_redis a)\<lparr>contradiction_check_at := Some t\<rparr>\<rparr>
                         else a))"

text \<open>
  \<^verbatim>\<open>_processPendingContradictions\<close>: up to ten queued pairs are put to the language
  model; a pair it confirms is resolved on the rows as they are now. An exception puts the
  entry back at the end of the queue and ends the batch.
\<close>

definition row_by_id :: "string \<Rightarrow> db \<Rightarrow> fragment option" where
  "row_by_id i d = (case filter (\<lambda>r. frag_id r = i) (fragments d) of [] \<Rightarrow> None | r # _ \<Rightarrow> Some r)"

fun pending_loop :: "env \<Rightarrow> nat \<Rightarrow> nat \<times> nat \<times> db \<times> redis \<Rightarrow> nat \<times> nat \<times> db \<times> redis" where
  "pending_loop e 0 acc = acc"
| "pending_loop e (Suc n) (processed, calls, d, rd) =
     (case pending_contradictions rd of
        [] \<Rightarrow> (processed, calls, d, rd)
      | entry # rest \<Rightarrow>
          (let rd1 = rd\<lparr>pending_contradictions := rest\<rparr> in
           if askGeminiContradiction e (contentA entry) (contentB entry) then
             (case (row_by_id (idA entry) d, row_by_id (idB entry) d) of
                (Some fragA, Some fragB) \<Rightarrow>
                  (case resolveContradiction fragA fragB d of
                     Inl err \<Rightarrow> (processed, calls + 1, d, rd1\<lparr>pending_contradictions := rest @ [entry]\<rparr>)
                   | Inr d1 \<Rightarrow> pending_loop e n (processed + 1, calls + 1, d1, rd1))
              | _ \<Rightarrow> pending_loop e n (processed, calls + 1, d, rd1))
           else pending_loop e n (processed, calls + 1, d, rd1)))"

definition processPendingContradictions :: "env \<Rightarrow> db \<times> redis \<Rightarrow> nat \<times> nat \<times> db \<times> redis" where
  "processPendingContradictions e st =
     (if \<not> gemini_available e \<or> \<not> ready (snd st) then (0, 0, fst st, snd st)
      else pending_loop e 10 (0, 0, fst st, snd st))"

text \<open>
  \<^verbatim>\<open>consolidate\<close>: the stages in their order, inside one \<^verbatim>\<open>try\<close>. The feedback
  report, the pruning of the Redis keyword sets and the list of stale fragments write
  neither a fragment nor an edge and are left out. Where no fragment is new the source's
  three contradiction counters are undefined; they are 0 here.
\<close>

record consolidate_results =
  ttlTransitions :: nat
  expiredDeleted :: nat
  duplicatesMerged :: nat
  embeddingsAdded :: nat
  utilityUpdated :: nat
  anchorsPromoted :: nat
  contradictionsFound :: nat
  nliResolvedDirectly :: nat
  nliSkippedAsNonContra :: nat
  pendingContradictions :: nat
  geminiCalls :: nat
  consolidate_error :: "db_error option"

definition consolidate :: "env \<Rightarrow> db \<times> redis \<Rightarrow> consolidate_results \<times> db \<times> redis" where
  "consolidate e st =
     (let (n1, d1) = transitionWithCount e (fst st);
          d2 = decayImportance e d1;
          (n3, d3) = deleteExpired e d2;
          (n4, d4) = mergeDuplicates d3;
          (n5, d5) = generateMissingEmbeddings e 5 d4;
          (n6, d6) = updateUtilityScores d5;
          (n7, d7) = promoteAnchors d6;
          a = detectContradictions e (d7, snd st);
          (n9, calls9, d9, rd9) =
            (if aborted a \<noteq> None then (0, 0, acc_db a, acc_redis a)
             else processPendingContradictions e (acc_db a, acc_redis a))
      in (\<lparr>ttlTransitions = n1, expiredDeleted = n3, duplicatesMerged = n4,
            embeddingsAdded = n5, utilityUpdated = n6, anchorsPromoted = n7,
            contradictionsFound = found a, nliResolvedDirectly = nliResolved a,
            nliSkippedAsNonContra = nliSkipped a, pendingContradictions = n9,
            geminiCalls = gemini_calls a + calls9, consolidate_error = aborted a\<rparr>,
          d9, rd9))"

section \<open>Notions for the proofs\<close>

text \<open>The columns of a row that no statement after the \<^verbatim>\<open>INSERT\<close> of a remember call writes.\<close>

definition row_core ::
  "fragment \<Rightarrow> string \<times> jstring \<times> string \<times> string list \<times> ftype \<times> real \<times> string \<times> string \<times> tier" where
  "row_core r = (frag_id r, content r, topic r, kw_list r, frag_type r, importance r,
                 content_hash r, agent_id r, ttl_tier r)"

text \<open>
  A pattern is local to a class of code units when every match consumes only code units
  of the class and depends on nothing but what it consumes. A text is free of a pattern
  when the pattern matches at none of its positions. A replacement text is harmless for
  a pattern when it starts and ends outside the class and is free of the pattern.
\<close>

definition loc :: "(int \<Rightarrow> bool) \<Rightarrow> parser \<Rightarrow> bool" where
  "loc C p \<longleftrightarrow> (\<forall>s r. r \<in> set (p s) \<longrightarrow> (\<exists>w. s = w @ r \<and> list_all C w \<and> (\<forall>v. v \<in> set (p (w @ v)))))"

fun free :: "parser \<Rightarrow> jstring \<Rightarrow> bool" where
  "free p [] = True"
| "free p (c # cs) = (p (c # cs) = [] \<and> free p cs)"

definition tok_ok :: "(int \<Rightarrow> bool) \<Rightarrow> parser \<Rightarrow> jstring \<Rightarrow> bool" where
  "tok_ok C p t \<longleftrightarrow> t \<noteq> [] \<and> \<not> C (hd t) \<and> \<not> C (last t) \<and> free p t"

text \<open>
  What a global replace does to a text, seen from another pattern: a code unit is kept
  (at a position \<open>K\<close> holds of), or some stretch of the text is replaced by one of the
  replacement texts \<open>Tok\<close>.
\<close>

inductive rw :: "(jstring \<Rightarrow> bool) \<Rightarrow> (jstring \<Rightarrow> bool) \<Rightarrow> jstring \<Rightarrow> jstring \<Rightarrow> bool"
  for K Tok where
  rw_nil: "rw K Tok [] []"
| rw_keep: "K (c # s) \<Longrightarrow> rw K Tok s out \<Longrightarrow> rw K Tok (c # s) (c # out)"
| rw_tok: "Tok t \<Longrightarrow> rw K Tok s out \<Longrightarrow> rw K Tok (u @ s) (t @ out)"

text \<open>The classes of the API key, e-mail and phone patterns.\<close>

definition key_char :: "int \<Rightarrow> bool" where
  "key_char c \<longleftrightarrow> is_alnum c \<or> c = 45 \<or> c = 95"

definition mail_char :: "int \<Rightarrow> bool" where
  "mail_char c \<longleftrightarrow> email_local c \<or> c = 64"

definition phone_char :: "int \<Rightarrow> bool" where
  "phone_char c \<longleftrightarrow> is_digit c \<or> phone_sep c"

text \<open>
  The password pattern read in two parts: the keyword that matches at the start of a text
  without regard to case, and the end of the match after the keyword (white space, a
  colon or an equals sign, white space, then the longest run of code units that are
  neither white space nor a comma), computed directly and as a scan in two phases.
\<close>

definition up :: "jstring \<Rightarrow> jstring" where
  "up s = map to_upper s"

definition ci :: "jstring \<Rightarrow> jstring \<Rightarrow> bool" where
  "ci K s \<longleftrightarrow> length K \<le> length s \<and> up (take (length K) s) = up K"

definition kwl :: "jstring list" where
  "kwl = [js ''password'', js ''passwd'', js ''pwd'', [48708, 48128, 48264, 54840], [48708, 48264]]"

definition kw :: "jstring \<Rightarrow> jstring option" where
  "kw s = find (\<lambda>K. ci K s) kwl"

definition tail_end :: "jstring \<Rightarrow> jstring option" where
  "tail_end s =
     (case dropWhile is_space s of
        [] \<Rightarrow> None
      | c # s2 \<Rightarrow>
          if c = 58 \<or> c = 61 then
            (case dropWhile is_space s2 of
               [] \<Rightarrow> None
             | v # s4 \<Rightarrow> if pwd_value v then Some (dropWhile pwd_value s4) else None)
          else None)"

definition kw_start :: "int \<Rightarrow> bool" where
  "kw_start c \<longleftrightarrow> to_upper c = 80 \<or> to_upper c = 48708"

definition kwc :: "int \<Rightarrow> bool" where
  "kwc c \<longleftrightarrow> to_upper c \<in> set (concat (map up kwl))"

fun ph2 :: "jstring \<Rightarrow> jstring option" where
  "ph2 [] = None"
| "ph2 (v # cs) =
     (if is_space v then ph2 cs else if pwd_value v then Some (dropWhile pwd_value cs) else None)"

fun ph1 :: "jstring \<Rightarrow> jstring option" where
  "ph1 [] = None"
| "ph1 (c # cs) = (if is_space c then ph1 cs else if c = 58 \<or> c = 61 then ph2 cs else None)"

text \<open>
  A position is settled for the password pattern when the pattern does not match there,
  or matches a keyword followed by exactly \<^verbatim>\<open>: [REDACTED_PWD]\<close> and then the end of the
  text, white space or a comma, so that the replacement writes back what it found.
\<close>

definition pwd_good :: "jstring \<Rightarrow> bool" where
  "pwd_good t \<longleftrightarrow>
     m_pwd t = None \<or>
     (\<exists>K rest. kw t = Some K \<and> drop (length K) t = js '': [REDACTED_PWD]'' @ rest \<and>
                (rest = [] \<or> \<not> pwd_value (hd rest)))"

fun pwd_stable :: "jstring \<Rightarrow> bool" where
  "pwd_stable [] = True"
| "pwd_stable (c # cs) = (pwd_good (c # cs) \<and> pwd_stable cs)"


section \<open>Example states\<close>

text \<open>
  A concrete environment for evaluating the model: the digest is replaced by the content
  itself (an injective stand-in), no OpenAI key, no tokenizer, no language model, an NLI
  model that fails on every pair.
\<close>

definition env0 :: env where
  "env0 = \<lparr>computeContentHash = (\<lambda>c. map char_of c), openai_api_key = False,
           generateEmbedding = (\<lambda>c. None), cosine_similarity = (\<lambda>a b. 0), now = 1000,
           tokenizer = None, extractKeywords = (\<lambda>c. []), nli_failed = False,
           classifyNLI = (\<lambda>a b. None), gemini_available = False,
           geminiCLIJson = (\<lambda>a b. None)\<rparr>"

definition redis0 :: redis where
  "redis0 = \<lparr>ready = True, kw_sets = (\<lambda>k. []), topic_sets = (\<lambda>k. []), type_sets = (\<lambda>k. []),
             recent = [], session_sets = (\<lambda>k. []), hot_cache = (\<lambda>k. None),
             working_memory = (\<lambda>k. []), memory_evaluation = [],
             contradiction_check_at = None, pending_contradictions = []\<rparr>"

text \<open>A row of the shared pool as an insert at time 0 leaves it.\<close>

definition example_row :: "string \<Rightarrow> jstring \<Rightarrow> ftype \<Rightarrow> real \<Rightarrow> fragment" where
  "example_row i c ty imp =
     \<lparr>frag_id = i, content = c, topic = ''stack'', kw_list = [], frag_type = ty,
      importance = imp, content_hash = map char_of c, source = None, linked_to = [],
      agent_id = ''default'', access_count = 0, accessed_at = None, created_at = 0,
      ttl_tier = inferTTL ty imp, estimated_tokens = (int (length c) + 3) div 4,
      utility_score = 1, verified_at = Some 0, embedding = None, is_anchor = False\<rparr>"

definition store_of :: "fragment list \<Rightarrow> db" where
  "store_of rows = \<lparr>fragments = rows, fragment_links = [], fragment_versions = []\<rparr>"

definition no_params :: params where
  "no_params = \<lparr>p_content = None, p_topic = None, p_type = None, p_keywords = None,
                 p_importance = None, p_source = None, p_linkedTo = None, p_agentId = None,
                 p_isAnchor = None, p_sessionId = None, p_scope = None\<rparr>"

text \<open>
  A fragment made an anchor by an amendment that also lowered its importance: warm since
  it was stored, importance 0.2 now.
\<close>

definition anchored_row :: fragment where
  "anchored_row = (example_row ''frag-a'' (js ''x'') Fact 0.2)\<lparr>is_anchor := True, ttl_tier := Warm\<rparr>"

definition keyword_row :: "string \<Rightarrow> jstring \<Rightarrow> fragment" where
  "keyword_row i c = (example_row i c Fact 0.5)\<lparr>kw_list := [''k'']\<rparr>"

definition recall_k :: recall_params where
  "recall_k = \<lparr>rc_keywords = Some [''k''], rc_topic = None, rc_type = None, rc_text = None,
               rc_tokenBudget = Some 1, rc_minImportance = None, rc_includeLinks = Some False,
               rc_linkRelationType = None, rc_fragmentCount = None, rc_threshold = None,
               rc_agentId = None\<rparr>"

text \<open>
  Two fragments of one topic with embeddings of cosine similarity 0.9, the first older
  than the second, and an NLI model that scores the pair as a contradiction (0.9) when the
  first is the premise and as an entailment (0.9) when the second is.
\<close>

definition embedded_row :: "string \<Rightarrow> jstring \<Rightarrow> int \<Rightarrow> fragment" where
  "embedded_row i c t = (example_row i c Decision 0.8)\<lparr>embedding := Some [1], created_at := t\<rparr>"

definition env_nli :: env where
  "env_nli = env0\<lparr>cosine_similarity := (\<lambda>a b. 0.9),
                  classifyNLI := (\<lambda>a b. if a = js ''pool size is 10''
                     then Some \<lparr>entailment = Some 0.05, neutral = Some 0.05, contradiction = Some 0.9\<rparr>
                     else Some \<lparr>entailment = Some 0.9, neutral = Some 0.05, contradiction = Some 0.05\<rparr>)\<rparr>"

text \<open>A remember call that asks for the session scope and names no session.\<close>

definition session_params :: params where
  "session_params = no_params\<lparr>p_content := Some (js ''Use pnpm for installs.''),
                               p_topic := Some ''stack'', p_type := Some Fact,
                               p_scope := Some ''session''\<rparr>"

text \<open>The fragment the factory builds from that call.\<close>

definition session_draft :: draft where
  "session_draft = the (create env0 ''frag-n'' session_params)"

text \<open>Two stored fragments, and an amendment of the first whose content is that of the second.\<close>

definition two_rows :: db where
  "two_rows = store_of [example_row ''frag-a'' (js ''a'') Fact 0.5,
                        example_row ''frag-b'' (js ''b'') Fact 0.5]"

definition amend_collision :: amend_params where
  "amend_collision = \<lparr>am_id = Some ''frag-a'', am_content = Some (js ''b''), am_topic = None,
                       am_keywords = None, am_type = None, am_importance = None,
                       am_isAnchor = None, am_supersedes = False, am_agentId = None\<rparr>"

text \<open>An error fragment of importance 0.9, the procedure that resolves it, and the link.\<close>

definition error_rows :: db where
  "error_rows = store_of [example_row ''frag-fix'' (js ''restart the pool'') Procedure 0.5,
                          example_row ''frag-err'' (js ''pool exhausted'') Error 0.9]"

definition resolve_link :: link_params where
  "resolve_link = \<lparr>lp_fromId = ''frag-fix'', lp_toId = ''frag-err'',
                    lp_relationType = Some ResolvedBy, lp_agentId = None\<rparr>"

lemmas regex_defs =
  js_def cls_def seq_def alt_def opt_def many1_def is_upper_def is_lower_def is_digit_def
  is_alnum_def is_letter_def is_space_def to_upper_def first_match_def api_key_re_def
  email_local_def email_domain_def email_re_def pwd_keyword_def pwd_value_def pwd_tail_def
  phone_sep_def phone_re_def m_api_key_def m_email_def m_pwd_def m_phone_def redactPII_def

lemmas store_defs =
  agent_char_def safe_agent_def visible_def importance_ok_def insert_row_def insert_store_def
  archiveVersion_def getById_def no_updates_def set_clauses_def update_store_def cascade_def
  delete_rows_def delete_first_def delete_store_def upsert_link_def add_linked_def
  createLink_def as_hit_def superseded_def store_searchByKeywords_def nulls_last_desc_def
  getByIds_def row_similarity_def searchBySemantic_def incrementAccess_def
  getLinkedFragments_def sort_by_def day_def update_where_def
  expired_def deleteExpired_def decayImportance_def transitionTTL_def
  generateMissingEmbeddings_def

lemmas index_defs =
  sadd_def zadd_def lower_char_def toLowerCase_def index_fragment_def deindex_def sinter_def
  sunion_def index_searchByKeywords_def searchByTopic_def searchByType_def getRecent_def
  cacheFragment_def getCachedFragment_def enforceWmBudget_def addToWorkingMemory_def
  pushToQueue_def

lemmas manager_defs =
  or_default_def trim_def truncate_content_def inferTTL_def countTokens_def hashContent_def
  create_def searchL1_def tryHotCache_def searchL2_def searchL3_def computeRankScore_def
  truthy_def or_zero_def rank_def deduplicate_def trimToTokenBudget_def estimateTokens_def
  search_def detectConflicts_def autoLink_relation_def autoLinkOnRemember_def remember_def
  staleThreshold_def annotate_stale_def recall_def forget_one_def forget_topic_def
  forget_def link_def amend_updates_def amend_def

lemmas consolidator_defs =
  detectContradiction_def tier_count_def transitionWithCount_def merge_order_def dup_ids_def
  dups_def dup_groups_def
  array_replace_def merge_one_def merge_group_def mergeDuplicates_def utility_def
  updateUtilityScores_def promoteAnchors_def halve_def resolveContradiction_def
  mark_processed_def askGeminiContradiction_def flagPotentialContradiction_def escalate_def
  contradicts_link_def check_pair_def candidates_for_def check_new_def
  detectContradictions_def row_by_id_def processPendingContradictions_def consolidate_def

lemmas example_defs =
  env0_def redis0_def example_row_def store_of_def no_params_def anchored_row_def
  keyword_row_def recall_k_def embedded_row_def env_nli_def session_params_def
  two_rows_def amend_collision_def error_rows_def resolve_link_def session_draft_def

section \<open>Verification\<close>

text \<open>
  Closed statements below are evaluated with the code equations of the definitions. The
  logarithm is only ever needed at 1 there.
\<close>

lemma LN_code [code]: "LN x = (if x = 1 then 0 else Code.abort (STR ''LN'') (\<lambda>_. LN x))"
  by (simp add: LN_def)

subsection \<open>C1: a repeated remember\<close>

text \<open>
  C1 says that a \<^verbatim>\<open>remember\<close> whose content is already stored returns the stored id,
  leaves the number of rows unchanged and raises the stored importance to the greater of
  the two. On the code the first two hold and the third does not: with a fragment of
  importance 0.5 stored, remembering the same content with importance 0.9 returns the id
  of the stored fragment, and the one row of the store still has importance 0.5. The
  duplicate check of \<^verbatim>\<open>insert\<close> returns before the \<^verbatim>\<open>ON CONFLICT\<close> clause that would
  take the greater value can run. The result object has no \<^verbatim>\<open>created\<close> field.
\<close>

theorem C1_duplicate_remember_keeps_importance:
  "(case remember env0 ''frag-b''
           (no_params\<lparr>p_content := Some (js ''Node 20 is required.''), p_topic := Some ''stack'',
                       p_type := Some Fact, p_importance := Some 0.9\<rparr>)
           (store_of [example_row ''frag-a'' (js ''Node 20 is required.'') Fact 0.5], redis0) of
      Inl err \<Rightarrow> False
    | Inr (r, d, rd) \<Rightarrow>
        r_id r = ''frag-a'' \<and> map frag_id (fragments d) = [''frag-a''] \<and>
        map importance (fragments d) = [0.5])"
  by code_simp

subsection \<open>C2: anchors under consolidation\<close>

text \<open>
  C2 says that consolidation leaves the tier of an anchor unchanged. On the code the
  demotion from warm to cold of \<^verbatim>\<open>transitionTTL\<close> does not test \<^verbatim>\<open>is_anchor\<close>: one
  consolidation run takes a warm anchor of importance 0.2 to the cold tier.
\<close>

theorem C2_anchor_demoted_to_cold:
  "map (\<lambda>r. (frag_id r, is_anchor r, ttl_tier r)) (fragments (store_of [anchored_row]))
     = [(''frag-a'', True, Warm)] \<and>
   map (\<lambda>r. (frag_id r, is_anchor r, ttl_tier r))
     (fragments (fst (snd (consolidate env0 (store_of [anchored_row], redis0)))))
     = [(''frag-a'', True, Cold)]"
  by code_simp

subsection \<open>C3: the token budget of recall\<close>

text \<open>
  With \<^verbatim>\<open>includeLinks\<close> left unset a recall that finds anything asks for the linked
  fragments, and that query raises: the call returns no fragments at all.
\<close>

lemma recall_with_links_raises:
  "fst (recall env0 (recall_k\<lparr>rc_includeLinks := None\<rparr>)
          (store_of [keyword_row ''frag-a'' (js ''a''), keyword_row ''frag-b'' (js ''b'')], redis0))
   = Inl InvalidColumnReference"
  by code_simp

text \<open>
  C3 says that the stored \<^verbatim>\<open>estimated_tokens\<close> of the fragments a recall returns sum to
  at most the token budget. On the code the budget is charged with content lengths
  against four characters per token: with \<^verbatim>\<open>includeLinks: false\<close> and a budget of 1, two
  fragments of one character each, whose stored estimate is one token each, are both
  returned.
\<close>

theorem C3_recall_exceeds_token_budget:
  "(case recall env0 recall_k
           (store_of [keyword_row ''frag-a'' (js ''a''), keyword_row ''frag-b'' (js ''b'')], redis0) of
      (Inl err, d, rd) \<Rightarrow> False
    | (Inr res, d, rd) \<Rightarrow>
        rc_tokenBudget recall_k = Some 1 \<and> rc_includeLinks recall_k = Some False \<and>
        map frag_id (res_fragments res) = [''frag-a'', ''frag-b''] \<and>
        map estimated_tokens (res_fragments res) = [1, 1] \<and>
        sum_list (map estimated_tokens (res_fragments res)) = 2)"
  by code_simp

subsection \<open>C4: merging duplicates\<close>



lemma no_match: "h \<notin> f ` set xs \<Longrightarrow> filter (\<lambda>x. f x = h) xs = []"
  by (induction xs) auto













subsection \<open>C5: an amendment whose content is already stored\<close>

lemma fragments_archiveVersion: "fragments (archiveVersion e a ag d) = fragments d"
  by (simp add: archiveVersion_def)

lemma update_store_merged:
  assumes target: "getById i ag d = Some a"
    and other: "b \<in> set (fragments d)" "visible (safe_agent ag) b" "frag_id b \<noteq> i"
               "content_hash b = computeContentHash e c"
    and upd: "u_content u = Some c"
  shows "\<exists>x. update_store e i u ag d = Inr (UpdMerged (frag_id x), archiveVersion e a ag d) \<and>
             x \<in> set (fragments d) \<and> visible (safe_agent ag) x \<and> frag_id x \<noteq> i \<and>
             content_hash x = computeContentHash e c"
proof -
  let ?dup = "filter (\<lambda>r. content_hash r = computeContentHash e c \<and> frag_id r \<noteq> i)
                (filter (visible (safe_agent ag)) (fragments d))"
  from other have "b \<in> set ?dup" by simp
  then obtain x xs where dup: "?dup = x # xs" by (cases ?dup) (auto simp: filter_empty_conv)
  then have "x \<in> set ?dup" by simp
  then have x: "x \<in> set (fragments d)" "visible (safe_agent ag) x" "frag_id x \<noteq> i"
    "content_hash x = computeContentHash e c" by auto
  have "update_store e i u ag d = Inr (UpdMerged (frag_id x), archiveVersion e a ag d)"
    using target upd dup by (simp add: update_store_def Let_def fragments_archiveVersion)
  with x show ?thesis by blast
qed

text \<open>
  C5 says that an amendment whose new content hashes to the hash of another fragment
  returns \<^verbatim>\<open>{updated: false, merged: true, existingId}\<close>, changes neither row and adds no
  row to \<^verbatim>\<open>fragment_versions\<close>. The last part fails: \<^verbatim>\<open>update\<close> archives the state of
  the target before it looks at the updates, so the colliding amendment of the first of
  two fragments leaves a version row of that fragment behind.
\<close>

theorem C5_collision_writes_version_row:
  "(case amend env0 amend_collision (two_rows, redis0) of
      Inl err \<Rightarrow> False
    | Inr (res, d, rd) \<Rightarrow>
        res = AmendMerged ''frag-b'' \<and> fragments d = fragments two_rows \<and>
        fragment_versions two_rows = [] \<and>
        map (\<lambda>v. (fragment_id v, v_content v)) (fragment_versions d) = [(''frag-a'', js ''a'')])"
  by code_simp

text \<open>
  C5 as the code has it: when the target is visible to the caller and another visible
  fragment carries the hash of the new (truncated) content, \<^verbatim>\<open>amend\<close> returns the merged
  result with the id of such a fragment, the rows of \<^verbatim>\<open>fragments\<close> and the edges are as
  before, and \<^verbatim>\<open>fragment_versions\<close> has gained exactly one row, the snapshot of the
  target as it was.
\<close>

theorem C5_amend_collision_archives_target:
  assumes ident: "am_id p = Some i" "i \<noteq> []"
    and newc: "am_content p = Some c"
    and target: "getById i (or_default (am_agentId p) ''default'') d = Some a"
    and other: "b \<in> set (fragments d)"
               "visible (safe_agent (or_default (am_agentId p) ''default'')) b"
               "frag_id b \<noteq> i" "content_hash b = computeContentHash e (truncate_content c)"
  shows "\<exists>x d'. amend e p (d, rd) = Inr (AmendMerged (frag_id x), d', rd) \<and>
               x \<in> set (fragments d) \<and> frag_id x \<noteq> i \<and>
               content_hash x = computeContentHash e (truncate_content c) \<and>
               fragments d' = fragments d \<and> fragment_links d' = fragment_links d \<and>
               fragment_versions d' = fragment_versions d @
                 [\<lparr>fragment_id = frag_id a, v_content = content a, v_topic = topic a,
                   v_keywords = kw_list a, v_type = frag_type a, v_importance = importance a,
                   amended_at = now e, amended_by = or_default (am_agentId p) ''default''\<rparr>]"
proof -
  let ?ag = "or_default (am_agentId p) ''default''"
  have uc: "u_content (amend_updates p) = Some (truncate_content c)"
    using newc by (simp add: amend_updates_def)
  from update_store_merged [OF target other uc]
  obtain x where x: "update_store e i (amend_updates p) ?ag d
                       = Inr (UpdMerged (frag_id x), archiveVersion e a ?ag d)"
    "x \<in> set (fragments d)" "frag_id x \<noteq> i"
    "content_hash x = computeContentHash e (truncate_content c)" by blast
  have idd: "or_default (Some i) [] = i" using ident by (simp add: or_default_def)
  have "amend e p (d, rd) = Inr (AmendMerged (frag_id x), archiveVersion e a ?ag d, rd)"
    using target ident x(1) by (simp add: amend_def Let_def idd)
  with x(2-4) show ?thesis
    by (auto simp: archiveVersion_def intro!: exI [of _ x])
qed

text \<open>C5, the amended statement on the two fragments above.\<close>

theorem C5_amend_collision_example:
  "am_id amend_collision = Some ''frag-a'' \<and> am_content amend_collision = Some (js ''b'') \<and>
   (\<exists>x d'. amend env0 amend_collision (two_rows, redis0) = Inr (AmendMerged (frag_id x), d', redis0) \<and>
            x \<in> set (fragments two_rows) \<and> frag_id x \<noteq> ''frag-a'' \<and>
            fragments d' = fragments two_rows \<and>
            length (fragment_versions d') = length (fragment_versions two_rows) + 1)"
proof -
  let ?a = "example_row ''frag-a'' (js ''a'') Fact 0.5"
  let ?b = "example_row ''frag-b'' (js ''b'') Fact 0.5"
  have h1: "am_id amend_collision = Some ''frag-a''" by (simp add: amend_collision_def)
  have h2: "''frag-a'' \<noteq> []" by simp
  have h3: "am_content amend_collision = Some (js ''b'')" by (simp add: amend_collision_def)
  have h4: "getById ''frag-a'' (or_default (am_agentId amend_collision) ''default'') two_rows = Some ?a"
    by code_simp
  have h5: "?b \<in> set (fragments two_rows)" by (simp add: two_rows_def store_of_def)
  have h6: "visible (safe_agent (or_default (am_agentId amend_collision) ''default'')) ?b"
    by code_simp
  have h7: "frag_id ?b \<noteq> ''frag-a''" by (simp add: example_row_def)
  have h8: "content_hash ?b = computeContentHash env0 (truncate_content (js ''b''))"
    by code_simp
  from C5_amend_collision_archives_target [OF h1 h2 h3 h4 h5 h6 h7 h8, of redis0]
  show ?thesis using h1 h3 by auto
qed

subsection \<open>C6: references to a deleted fragment\<close>

text \<open>
  C6 says that after a fragment is deleted no surviving \<^verbatim>\<open>linked_to\<close> array contains
  its id, at the latest after the next consolidation. On the code: link two fragments,
  forget the second, consolidate; the edge is gone with the row, and the first fragment's
  \<^verbatim>\<open>linked_to\<close> still holds the id of the second.
\<close>

theorem C6_dangling_linked_to_after_consolidation:
  "(case link env0 \<lparr>lp_fromId = ''frag-a'', lp_toId = ''frag-b'', lp_relationType = None,
                     lp_agentId = None\<rparr>
           (store_of [example_row ''frag-a'' (js ''a'') Fact 0.5,
                      example_row ''frag-b'' (js ''b'') Fact 0.5]) of
      Inl err \<Rightarrow> False
    | Inr (rel, d1) \<Rightarrow>
        (case forget \<lparr>fg_id = Some ''frag-b'', fg_topic = None, fg_force = False,
                       fg_agentId = None\<rparr> (d1, redis0) of
           (res, d2, rd2) \<Rightarrow>
             (case consolidate env0 (d2, rd2) of
                (cr, d3, rd3) \<Rightarrow>
                  deleted res = 1 \<and> map frag_id (fragments d3) = [''frag-a''] \<and>
                  fragment_links d3 = [] \<and>
                  map linked_to (fragments d3) = [[''frag-b'']])))"
  by code_simp

subsection \<open>C7: the NLI verdict and the contradicts edge\<close>

text \<open>
  C7 says that on a contradiction score of at least 0.8 the Consolidator records a
  \<^verbatim>\<open>contradicts\<close> edge without invoking the language model. On the code, when the
  fragment under examination is not newer than its candidate, the \<^verbatim>\<open>superseded_by\<close> edge
  is written on the same ordered pair as the \<^verbatim>\<open>contradicts\<close> edge and replaces it: the
  run resolves the pair through NLI alone, calls no language model, and leaves a single
  edge, of type \<^verbatim>\<open>superseded_by\<close>.
\<close>

theorem C7_contradicts_edge_overwritten:
  "(let a = detectContradictions env_nli
              (store_of [embedded_row ''frag-a'' (js ''pool size is 10'') 1,
                         embedded_row ''frag-b'' (js ''pool size is 20'') 2], redis0)
    in nliResolved a = 1 \<and> nliSkipped a = 1 \<and> gemini_calls a = 0 \<and> aborted a = None \<and>
       fragment_links (acc_db a) =
         [\<lparr>from_id = ''frag-a'', to_id = ''frag-b'', relation_type = SupersededBy\<rparr>] \<and>
       map importance (fragments (acc_db a)) = [0.4, 0.8])"
  by code_simp

subsection \<open>C8: a resolved error\<close>

lemma getById_SomeD:
  assumes "getById i ag d = Some r"
  shows "r \<in> set (fragments d)" "frag_id r = i" "visible (safe_agent ag) r"
proof -
  let ?l = "filter (\<lambda>r. frag_id r = i) (filter (visible (safe_agent ag)) (fragments d))"
  from assms obtain rs where "?l = r # rs"
    by (auto simp: getById_def split: list.splits)
  then have "r \<in> set ?l" by simp
  then show "r \<in> set (fragments d)" "frag_id r = i" "visible (safe_agent ag) r" by auto
qed

lemma getById_map:
  assumes "\<And>r. frag_id (g r) = frag_id r" "\<And>r. agent_id (g r) = agent_id r"
  shows "getById i ag (d\<lparr>fragments := map g (fragments d)\<rparr>) = map_option g (getById i ag d)"
proof -
  have v: "\<And>r. visible (safe_agent ag) (g r) = visible (safe_agent ag) r"
    using assms(2) by (simp add: visible_def)
  have "filter (\<lambda>r. frag_id r = i) (filter (visible (safe_agent ag)) (map g (fragments d)))
        = map g (filter (\<lambda>r. frag_id r = i) (filter (visible (safe_agent ag)) (fragments d)))"
    using assms(1) v by (simp add: filter_map comp_def)
  then show ?thesis by (simp add: getById_def split: list.splits)
qed

lemma getById_createLink:
  assumes "createLink a b rel ag' d = Inr d1"
  shows "\<exists>g. (\<forall>r. frag_id (g r) = frag_id r \<and> agent_id (g r) = agent_id r \<and>
                   frag_type (g r) = frag_type r \<and> importance (g r) = importance r) \<and>
             getById i ag d1 = map_option g (getById i ag d)"
proof -
  let ?g1 = "\<lambda>r. if frag_id r = a \<and> visible (safe_agent ag') r \<and> b \<notin> set (linked_to r)
                  then r\<lparr>linked_to := linked_to r @ [b]\<rparr> else r"
  let ?g2 = "\<lambda>r. if frag_id r = b \<and> visible (safe_agent ag') r \<and> a \<notin> set (linked_to r)
                  then r\<lparr>linked_to := linked_to r @ [a]\<rparr> else r"
  let ?g = "?g2 \<circ> ?g1"
  have p: "\<And>r. frag_id (?g r) = frag_id r" "\<And>r. agent_id (?g r) = agent_id r" by auto
  from assms have d1: "d1 = d\<lparr>fragment_links := upsert_link a b rel (fragment_links d),
                               fragments := map ?g (fragments d)\<rparr>"
    by (auto simp: createLink_def add_linked_def split: if_splits)
  have "getById i ag d1 = getById i ag (d\<lparr>fragments := map ?g (fragments d)\<rparr>)"
    unfolding d1 by (simp add: getById_def)
  also have "\<dots> = map_option ?g (getById i ag d)" by (rule getById_map [OF p])
  finally have "getById i ag d1 = map_option ?g (getById i ag d)" .
  moreover have "\<forall>r. frag_id (?g r) = frag_id r \<and> agent_id (?g r) = agent_id r \<and>
                   frag_type (?g r) = frag_type r \<and> importance (?g r) = importance r" by auto
  ultimately show ?thesis by blast
qed

lemma update_store_importance:
  assumes "getById i ag d = Some t" "importance_ok x"
  shows "\<exists>d' t'. update_store e i (no_updates\<lparr>u_importance := Some x\<rparr>) ag d = Inr (UpdRow t', d') \<and>
                 (\<exists>t''. getById i ag d' = Some t'' \<and> importance t'' = x)"
proof -
  let ?u = "no_updates\<lparr>u_importance := Some x\<rparr>"
  let ?d1 = "archiveVersion e t ag d"
  let ?g = "\<lambda>r. if frag_id r = i \<and> visible (safe_agent ag) r then set_clauses e ?u r else r"
  have sc: "\<And>r. set_clauses e ?u r = r\<lparr>importance := x, verified_at := Some (now e), accessed_at := Some (now e)\<rparr>"
    by (simp add: set_clauses_def no_updates_def)
  have ne: "?u \<noteq> no_updates" by (simp add: no_updates_def)
  have uc: "u_content ?u = None" by (simp add: no_updates_def)
  have upd: "update_store e i ?u ag d
             = Inr (UpdRow (set_clauses e ?u t), ?d1\<lparr>fragments := map ?g (fragments ?d1)\<rparr>)"
    using assms ne uc by (simp add: update_store_def Let_def sc)
  have p: "\<And>r. frag_id (?g r) = frag_id r" "\<And>r. agent_id (?g r) = agent_id r"
    by (auto simp: sc)
  have g1: "getById i ag ?d1 = Some t" using assms(1) by (simp add: getById_def archiveVersion_def)
  have "getById i ag (?d1\<lparr>fragments := map ?g (fragments ?d1)\<rparr>) = map_option ?g (getById i ag ?d1)"
    by (rule getById_map [OF p])
  also have "\<dots> = Some (?g t)" using g1 by simp
  finally have "getById i ag (?d1\<lparr>fragments := map ?g (fragments ?d1)\<rparr>) = Some (?g t)" .
  moreover have "importance (?g t) = x"
    using getById_SomeD [OF assms(1)] by (simp add: sc)
  ultimately show ?thesis using upd by blast
qed

text \<open>
  C8 says that a \<^verbatim>\<open>resolved_by\<close> link to an error fragment of importance above 0.5 halves
  that importance. The code writes the constant 0.5: an error fragment of importance 0.9
  has importance 0.5 after the link, not 0.45.
\<close>

theorem C8_importance_not_halved:
  "(case link env0 resolve_link error_rows of
      Inl err \<Rightarrow> False
    | Inr (rel, d) \<Rightarrow>
        rel = Some ResolvedBy \<and>
        map (\<lambda>r. (frag_id r, frag_type r, importance r)) (fragments error_rows)
          = [(''frag-fix'', Procedure, 0.5), (''frag-err'', Error, 0.9)] \<and>
        map (\<lambda>r. (frag_id r, importance r)) (fragments d)
          = [(''frag-fix'', 0.5), (''frag-err'', 0.5)] \<and>
        (0.5 :: real) \<noteq> 0.9 / 2)"
  by code_simp

text \<open>
  C8 as the code has it: a \<^verbatim>\<open>link\<close> call of relation \<^verbatim>\<open>resolved_by\<close> between two
  fragments visible to the caller, whose target is an error fragment of importance above
  0.5, succeeds and leaves the target with importance 0.5.
\<close>

theorem C8_resolved_by_sets_importance_to_half:
  assumes rel: "lp_relationType p = Some ResolvedBy"
    and src: "getById (lp_fromId p) (or_default (lp_agentId p) ''default'') d = Some f"
    and tgt: "getById (lp_toId p) (or_default (lp_agentId p) ''default'') d = Some t"
    and err: "frag_type t = Error" and imp: "importance t > 0.5"
  shows "\<exists>d' t'. link e p d = Inr (Some ResolvedBy, d') \<and>
                 getById (lp_toId p) (or_default (lp_agentId p) ''default'') d' = Some t' \<and>
                 importance t' = 0.5"
proof -
  let ?ag = "or_default (lp_agentId p) ''default''"
  have ex: "lp_fromId p \<in> frag_id ` set (fragments d)" "lp_toId p \<in> frag_id ` set (fragments d)"
    using getById_SomeD [OF src] getById_SomeD [OF tgt] by force+
  then obtain d1 where d1: "createLink (lp_fromId p) (lp_toId p) ResolvedBy ?ag d = Inr d1"
    by (simp add: createLink_def)
  from getById_createLink [OF d1, of "lp_toId p" ?ag] tgt
  obtain t1 where t1: "getById (lp_toId p) ?ag d1 = Some t1" by auto
  have ok: "importance_ok 0.5" by (simp add: importance_ok_def)
  from update_store_importance [OF t1 ok, of e]
  obtain d2 t2 t3 where u: "update_store e (lp_toId p) (no_updates\<lparr>u_importance := Some 0.5\<rparr>) ?ag d1
                             = Inr (UpdRow t2, d2)"
    "getById (lp_toId p) ?ag d2 = Some t3" "importance t3 = 0.5" by blast
  have "link e p d = Inr (Some ResolvedBy, d2)"
    using rel src tgt err imp d1 u(1) by (simp add: link_def Let_def)
  with u(2,3) show ?thesis by blast
qed

text \<open>C8, the amended statement on the error fragment above.\<close>

theorem C8_resolved_by_example:
  "lp_relationType resolve_link = Some ResolvedBy \<and>
   (\<exists>d' t'. link env0 resolve_link error_rows = Inr (Some ResolvedBy, d') \<and>
             getById ''frag-err'' ''default'' d' = Some t' \<and> importance t' = 0.5)"
proof -
  let ?f = "example_row ''frag-fix'' (js ''restart the pool'') Procedure 0.5"
  let ?t = "example_row ''frag-err'' (js ''pool exhausted'') Error 0.9"
  have h1: "lp_relationType resolve_link = Some ResolvedBy" by (simp add: resolve_link_def)
  have h2: "getById (lp_fromId resolve_link) (or_default (lp_agentId resolve_link) ''default'')
              error_rows = Some ?f" by code_simp
  have h3: "getById (lp_toId resolve_link) (or_default (lp_agentId resolve_link) ''default'')
              error_rows = Some ?t" by code_simp
  have h4: "frag_type ?t = Error" by (simp add: example_row_def)
  have h5: "importance ?t > 0.5" by (simp add: example_row_def)
  have ag: "or_default (lp_agentId resolve_link) ''default'' = ''default''"
    by (simp add: resolve_link_def or_default_def)
  have t: "lp_toId resolve_link = ''frag-err''" by (simp add: resolve_link_def)
  from C8_resolved_by_sets_importance_to_half [OF h1 h2 h3 h4 h5, of env0]
  show ?thesis using h1 by (simp add: ag t)
qed

subsection \<open>C9: redaction twice\<close>

subsubsection \<open>Skipping a match\<close>

lemma replaceAll_skip: "replaceAll m k s = replaceAll m 0 (drop k s)"
proof (induction k arbitrary: s)
  case 0
  show ?case by simp
next
  case (Suc k)
  show ?case using Suc [of "tl s"] by (cases s) simp_all
qed

subsubsection \<open>Local patterns\<close>

lemma locI:
  assumes "\<And>s r. r \<in> set (p s) \<Longrightarrow> \<exists>w. s = w @ r \<and> list_all C w \<and> (\<forall>v. v \<in> set (p (w @ v)))"
  shows "loc C p"
  using assms unfolding loc_def by blast

lemma locD:
  "loc C p \<Longrightarrow> r \<in> set (p s) \<Longrightarrow> \<exists>w. s = w @ r \<and> list_all C w \<and> (\<forall>v. v \<in> set (p (w @ v)))"
  unfolding loc_def by blast

lemma loc_cls: "(\<And>c. P c \<Longrightarrow> C c) \<Longrightarrow> loc C (cls P)"
proof (rule locI)
  fix s r
  assume C: "\<And>c. P c \<Longrightarrow> C c" and r: "r \<in> set (cls P s)"
  then obtain c where c: "s = c # r" "P c" by (auto simp: cls_def split: list.splits if_splits)
  have "s = [c] @ r \<and> list_all C [c] \<and> (\<forall>v. v \<in> set (cls P ([c] @ v)))"
    using c C by (simp add: cls_def)
  then show "\<exists>w. s = w @ r \<and> list_all C w \<and> (\<forall>v. v \<in> set (cls P (w @ v)))" by blast
qed

lemma loc_seq:
  assumes p: "loc C p" and q: "loc C q"
  shows "loc C (seq p q)"
proof (rule locI)
  fix s r
  assume "r \<in> set (seq p q s)"
  then obtain r1 where r1: "r1 \<in> set (p s)" "r \<in> set (q r1)" by (auto simp: seq_def)
  from locD [OF p r1(1)] obtain w1 where w1: "s = w1 @ r1" "list_all C w1"
    "\<And>v. v \<in> set (p (w1 @ v))" by blast
  from locD [OF q r1(2)] obtain w2 where w2: "r1 = w2 @ r" "list_all C w2"
    "\<And>v. v \<in> set (q (w2 @ v))" by blast
  have "\<And>v. v \<in> set (seq p q ((w1 @ w2) @ v))"
    using w1(3) w2(3) by (auto simp: seq_def)
  moreover have "s = (w1 @ w2) @ r" "list_all C (w1 @ w2)" using w1 w2 by auto
  ultimately show "\<exists>w. s = w @ r \<and> list_all C w \<and> (\<forall>v. v \<in> set (seq p q (w @ v)))" by blast
qed

lemma loc_alt:
  assumes p: "loc C p" and q: "loc C q"
  shows "loc C (alt p q)"
proof (rule locI)
  fix s r
  assume "r \<in> set (alt p q s)"
  then consider "r \<in> set (p s)" | "r \<in> set (q s)" by (auto simp: alt_def)
  then show "\<exists>w. s = w @ r \<and> list_all C w \<and> (\<forall>v. v \<in> set (alt p q (w @ v)))"
  proof cases
    case 1
    from locD [OF p 1] show ?thesis by (auto simp: alt_def)
  next
    case 2
    from locD [OF q 2] show ?thesis by (auto simp: alt_def)
  qed
qed

lemma loc_opt:
  assumes p: "loc C p"
  shows "loc C (opt p)"
proof (rule locI)
  fix s r
  assume "r \<in> set (opt p s)"
  then consider "r \<in> set (p s)" | "r = s" by (auto simp: opt_def)
  then show "\<exists>w. s = w @ r \<and> list_all C w \<and> (\<forall>v. v \<in> set (opt p (w @ v)))"
  proof cases
    case 1
    from locD [OF p 1] show ?thesis by (auto simp: opt_def)
  next
    case 2
    then have "s = [] @ r \<and> list_all C [] \<and> (\<forall>v. v \<in> set (opt p ([] @ v)))" by (simp add: opt_def)
    then show ?thesis by blast
  qed
qed

lemma many_sound: "r \<in> set (many P s) \<Longrightarrow> \<exists>w. s = w @ r \<and> list_all P w"
proof (induction s)
  case Nil
  then show ?case by simp
next
  case (Cons c cs)
  show ?case
  proof (cases "P c \<and> r \<in> set (many P cs)")
    case True
    with Cons.IH obtain w where "cs = w @ r" "list_all P w" by blast
    then have "c # cs = (c # w) @ r \<and> list_all P (c # w)" using True by simp
    then show ?thesis by blast
  next
    case False
    then have "r = c # cs" using Cons.prems by (auto split: if_splits)
    then have "c # cs = [] @ r \<and> list_all P []" by simp
    then show ?thesis by blast
  qed
qed

lemma many_complete: "list_all P w \<Longrightarrow> v \<in> set (many P (w @ v))"
proof (induction w)
  case Nil
  show ?case by (cases v) auto
next
  case (Cons c w)
  then show ?case by simp
qed

lemma loc_many: "(\<And>c. P c \<Longrightarrow> C c) \<Longrightarrow> loc C (many P)"
proof (rule locI)
  fix s r
  assume C: "\<And>c. P c \<Longrightarrow> C c" and "r \<in> set (many P s)"
  from many_sound [OF this(2)] obtain w where w: "s = w @ r" "list_all P w" by blast
  have "list_all C w" using w(2) C by (auto simp: list_all_iff)
  then show "\<exists>w. s = w @ r \<and> list_all C w \<and> (\<forall>v. v \<in> set (many P (w @ v)))"
    using w many_complete [OF w(2)] by blast
qed

lemma loc_many1: "(\<And>c. P c \<Longrightarrow> C c) \<Longrightarrow> loc C (many1 P)"
  unfolding many1_def by (intro loc_seq loc_cls loc_many)

lemma loc_nil: "loc C (\<lambda>s. [s])"
proof (rule locI)
  fix s r :: jstring
  assume "r \<in> set [s]"
  then have "s = [] @ r \<and> list_all C [] \<and> (\<forall>v. v \<in> set [[] @ v])" by simp
  then show "\<exists>w. s = w @ r \<and> list_all C w \<and> (\<forall>v. v \<in> set [w @ v])" by blast
qed

lemma loc_rep: "(\<And>c. P c \<Longrightarrow> C c) \<Longrightarrow> loc C (rep n P)"
proof (induction n)
  case 0
  have "rep 0 P = (\<lambda>s. [s])" by (simp add: fun_eq_iff)
  then show ?case by (simp add: loc_nil)
next
  case (Suc n)
  have "rep (Suc n) P = seq (cls P) (rep n P)" by (simp add: fun_eq_iff)
  then show ?case using Suc by (simp add: loc_seq loc_cls)
qed

lemma loc_lit: "list_all C xs \<Longrightarrow> loc C (lit xs)"
proof (induction xs)
  case Nil
  have "lit [] = (\<lambda>s. [s])" by (simp add: fun_eq_iff)
  then show ?case by (simp add: loc_nil)
next
  case (Cons x xs)
  have "lit (x # xs) = seq (cls (\<lambda>c. c = x)) (lit xs)" by (simp add: fun_eq_iff)
  then show ?case using Cons by (auto intro!: loc_seq loc_cls)
qed

subsubsection \<open>Texts free of a pattern\<close>

lemma free_append: "free p (x @ y) \<Longrightarrow> free p y"
  by (induction x) auto

lemma free_drop: "free p s \<Longrightarrow> free p (drop n s)"
  using free_append [of p "take n s" "drop n s"] by simp

lemma replaceAll_free:
  assumes m: "\<And>s. p s = [] \<Longrightarrow> m s = None"
  shows "free p t \<Longrightarrow> replaceAll m 0 t = t"
  by (induction t) (auto simp: m)

lemma prefix_in_class:
  assumes "w @ r = t @ out" "list_all C w" "t \<noteq> []" "\<not> C (last t)"
  shows "\<exists>v. t = w @ v"
proof -
  from assms(1) consider u where "w = t @ u" | u where "w @ u = t"
    by (auto simp: append_eq_append_conv2)
  then show ?thesis
  proof cases
    case 1
    then have "last t \<in> set w" using assms(3) by simp
    then show ?thesis using assms(2,4) by (auto simp: list_all_iff)
  next
    case 2
    then show ?thesis by auto
  qed
qed

lemma free_tok_append:
  assumes l: "loc C p" and last: "\<not> C (last t)"
  shows "t \<noteq> [] \<Longrightarrow> free p t \<Longrightarrow> free p out \<Longrightarrow> free p (t @ out)"
  using last
proof (induction t)
  case Nil
  then show ?case by simp
next
  case (Cons c t)
  have here: "p (c # t @ out) = []"
  proof (rule ccontr)
    assume "p (c # t @ out) \<noteq> []"
    then obtain r where "r \<in> set (p ((c # t) @ out))" by (cases "p (c # t @ out)") auto
    from locD [OF l this] obtain w where w: "(c # t) @ out = w @ r" "list_all C w"
      "\<And>v. v \<in> set (p (w @ v))" by blast
    from prefix_in_class [OF w(1) [symmetric] w(2) _ Cons.prems(4)]
    obtain v where "c # t = w @ v" by auto
    then have "v \<in> set (p (c # t))" using w(3) [of v] by simp
    then show False using Cons.prems(2) by auto
  qed
  show ?case
  proof (cases "t = []")
    case True
    then show ?thesis using here Cons.prems by simp
  next
    case False
    then have "free p (t @ out)" using Cons by auto
    then show ?thesis using here by simp
  qed
qed

subsubsection \<open>What a replacement leaves\<close>

lemma rw_prefix:
  assumes tok: "\<And>t. Tok t \<Longrightarrow> t \<noteq> [] \<and> \<not> C (hd t)"
  shows "rw K Tok s out \<Longrightarrow> list_all C w \<Longrightarrow> out = w @ v \<Longrightarrow> \<exists>v'. s = w @ v'"
proof (induction arbitrary: w v rule: rw.induct)
  case rw_nil
  then show ?case by simp
next
  case (rw_keep c s out)
  show ?case
  proof (cases w)
    case Nil
    then show ?thesis by simp
  next
    case (Cons a w')
    then have "out = w' @ v" "a = c" "list_all C w'" using rw_keep.prems by auto
    from rw_keep.IH [OF this(3) this(1)] obtain v' where "s = w' @ v'" by blast
    then show ?thesis using Cons \<open>a = c\<close> by simp
  qed
next
  case (rw_tok t s out u)
  show ?case
  proof (cases w)
    case Nil
    then show ?thesis by simp
  next
    case (Cons a w')
    have "t \<noteq> []" "\<not> C (hd t)" using tok [OF rw_tok.hyps(1)] by auto
    then have "hd (t @ out) = hd t" by simp
    moreover have "hd (t @ out) = hd (w @ v)" using rw_tok.prems(2) by simp
    ultimately have "a = hd t" using Cons by simp
    then show ?thesis using rw_tok.prems(1) Cons \<open>\<not> C (hd t)\<close> by simp
  qed
qed

lemma rw_free:
  assumes l: "loc C p" and tok: "\<And>t. Tok t \<Longrightarrow> tok_ok C p t"
  shows "rw (\<lambda>s. p s = []) Tok s out \<Longrightarrow> free p out"
proof (induction rule: rw.induct)
  case rw_nil
  show ?case by simp
next
  case (rw_keep c s out)
  have "p (c # out) = []"
  proof (rule ccontr)
    assume "p (c # out) \<noteq> []"
    then obtain r where "r \<in> set (p (c # out))" by (cases "p (c # out)") auto
    from locD [OF l this] obtain w where w: "c # out = w @ r" "list_all C w"
      "\<And>v. v \<in> set (p (w @ v))" by blast
    have "rw (\<lambda>s. p s = []) Tok (c # s) (c # out)" using rw_keep.hyps by (rule rw.rw_keep)
    from rw_prefix [of Tok C, OF _ this w(2) w(1)] tok
    obtain v' where "c # s = w @ v'" by (auto simp: tok_ok_def)
    then have "v' \<in> set (p (c # s))" using w(3) [of v'] by simp
    then show False using rw_keep.hyps(1) by simp
  qed
  then show ?case using rw_keep.IH by simp
next
  case (rw_tok t s out u)
  have "tok_ok C p t" using tok rw_tok.hyps(1) by blast
  then show ?case using free_tok_append [OF l, of t out] rw_tok.IH by (simp add: tok_ok_def)
qed

lemma rw_keep_many:
  "free p (x @ s) \<Longrightarrow> rw (\<lambda>s. p s = []) Tok s out \<Longrightarrow> rw (\<lambda>s. p s = []) Tok (x @ s) (x @ out)"
  by (induction x) (auto intro: rw.rw_keep)

lemma replaceAll_rw_own:
  assumes none: "\<And>s. m s = None \<Longrightarrow> p s = []"
    and some: "\<And>s n r. m s = Some (n, r) \<Longrightarrow> Tok r"
  shows "rw (\<lambda>s. p s = []) Tok s (replaceAll m 0 s)"
proof (induction s rule: length_induct)
  case (1 s)
  show ?case
  proof (cases s)
    case Nil
    then show ?thesis by (simp add: rw.rw_nil)
  next
    case (Cons c cs)
    show ?thesis
    proof (cases "m (c # cs)")
      case None
      have "rw (\<lambda>s. p s = []) Tok cs (replaceAll m 0 cs)" using 1 Cons by simp
      then show ?thesis using None none [OF None] Cons by (simp add: rw.rw_keep)
    next
      case (Some a)
      obtain n r where a: "a = (n, r)" by (cases a)
      have "rw (\<lambda>s. p s = []) Tok (drop (n - 1) cs) (replaceAll m 0 (drop (n - 1) cs))"
        using 1 Cons by simp
      then have "rw (\<lambda>s. p s = []) Tok ((c # take (n - 1) cs) @ drop (n - 1) cs)
                   (r @ replaceAll m 0 (drop (n - 1) cs))"
        using some [OF Some [unfolded a]] by (rule rw.rw_tok [rotated])
      then show ?thesis using Some a Cons replaceAll_skip [of m "n - 1" cs] by simp
    qed
  qed
qed

lemma replaceAll_rw_other:
  assumes some: "\<And>s n r. m s = Some (n, r) \<Longrightarrow> \<exists>j t. r = take j s @ t \<and> j \<le> n \<and> n \<le> length s \<and> Tok t"
  shows "free p s \<Longrightarrow> rw (\<lambda>s. p s = []) Tok s (replaceAll m 0 s)"
proof (induction s rule: length_induct)
  case (1 s)
  show ?case
  proof (cases s)
    case Nil
    then show ?thesis by (simp add: rw.rw_nil)
  next
    case (Cons c cs)
    show ?thesis
    proof (cases "m (c # cs)")
      case None
      have "rw (\<lambda>s. p s = []) Tok cs (replaceAll m 0 cs)" using 1 Cons by simp
      then show ?thesis using None 1(2) Cons by (simp add: rw.rw_keep)
    next
      case (Some a)
      obtain n r where a: "a = (n, r)" by (cases a)
      from some [OF Some [unfolded a]] obtain j t where
        jt: "r = take j (c # cs) @ t" "j \<le> n" "n \<le> length (c # cs)" "Tok t" by blast
      let ?rest = "drop (n - 1) cs"
      have "free p ?rest" using 1(2) Cons by (simp add: free_drop)
      then have "rw (\<lambda>s. p s = []) Tok ?rest (replaceAll m 0 ?rest)" using 1 Cons by simp
      then have "rw (\<lambda>s. p s = []) Tok (drop j (c # take (n - 1) cs) @ ?rest)
                   (t @ replaceAll m 0 ?rest)"
        using jt(4) by (rule rw.rw_tok [rotated])
      moreover have eq: "take j (c # cs) @ drop j (c # take (n - 1) cs) @ ?rest = c # cs"
      proof -
        have "take j (c # cs) = take j (c # take (n - 1) cs)"
          using jt(2) by (cases j) (auto simp: min_def)
        then have "take j (c # cs) @ drop j (c # take (n - 1) cs) = c # take (n - 1) cs" by simp
        then have "(take j (c # cs) @ drop j (c # take (n - 1) cs)) @ ?rest
                   = (c # take (n - 1) cs) @ ?rest" by (rule arg_cong)
        then show ?thesis by simp
      qed
      ultimately have "rw (\<lambda>s. p s = []) Tok (c # cs) (take j (c # cs) @ t @ replaceAll m 0 ?rest)"
        using rw_keep_many [of p "take j (c # cs)" "drop j (c # take (n - 1) cs) @ ?rest" Tok
                               "t @ replaceAll m 0 ?rest"] 1(2) Cons
        by simp
      then show ?thesis using Some a Cons jt(1) replaceAll_skip [of m "n - 1" cs] by simp
    qed
  qed
qed

subsubsection \<open>The API key, e-mail and phone patterns\<close>

lemma loc_api_key: "loc key_char api_key_re"
  unfolding api_key_re_def
  by (intro loc_alt loc_seq loc_lit loc_rep loc_many)
     (simp_all add: key_char_def js_def is_alnum_def is_lower_def is_upper_def is_digit_def)

lemma loc_email: "loc mail_char email_re"
  unfolding email_re_def
  by (intro loc_seq loc_many1 loc_cls loc_rep loc_many)
     (auto simp: mail_char_def email_local_def email_domain_def is_letter_def is_alnum_def)

lemma loc_phone: "loc phone_char phone_re"
  unfolding phone_re_def
  by (intro loc_seq loc_lit loc_cls loc_opt loc_rep)
     (auto simp: phone_char_def js_def is_digit_def)

lemma tok_key:
  "tok_ok key_char api_key_re (js ''[REDACTED_API_KEY]'')"
  "tok_ok key_char api_key_re (js ''[REDACTED_EMAIL]'')"
  "tok_ok key_char api_key_re (js '': [REDACTED_PWD]'')"
  "tok_ok key_char api_key_re (js ''[REDACTED_PHONE]'')"
  by code_simp+

lemma tok_mail:
  "tok_ok mail_char email_re (js ''[REDACTED_EMAIL]'')"
  "tok_ok mail_char email_re (js '': [REDACTED_PWD]'')"
  "tok_ok mail_char email_re (js ''[REDACTED_PHONE]'')"
  by code_simp+

lemma tok_phone: "tok_ok phone_char phone_re (js ''[REDACTED_PHONE]'')"
  by code_simp

lemma first_match_None: "first_match p s = None \<longleftrightarrow> p s = []"
  by (simp add: first_match_def split: list.splits)

lemma first_match_le: "first_match p s = Some n \<Longrightarrow> n \<le> length s"
  by (auto simp: first_match_def split: list.splits)

lemma loc_pwd_tail: "loc (\<lambda>c. True) pwd_tail"
  unfolding pwd_tail_def
  by (intro loc_seq loc_many loc_cls loc_many1) simp_all

lemma m_pwd_shape:
  assumes "m_pwd s = Some (n, r)"
  shows "\<exists>j t. r = take j s @ t \<and> j \<le> n \<and> n \<le> length s \<and> t = js '': [REDACTED_PWD]''"
proof -
  let ?l = "concat (map (\<lambda>r1. map (\<lambda>r. (r1, r)) (pwd_tail r1)) (pwd_keyword s))"
  from assms obtain r1 r' rest where l: "?l = (r1, r') # rest"
    and n: "n = length s - length r'" and r: "r = take (length s - length r1) s @ js '': [REDACTED_PWD]''"
    by (auto simp: m_pwd_def split: list.splits)
  have "(r1, r') \<in> set ?l" using l by simp
  then have "r' \<in> set (pwd_tail r1)" by auto
  from locD [OF loc_pwd_tail this] have "length r' \<le> length r1" by auto
  then show ?thesis using n r by auto
qed

lemma free_step_email:
  assumes l: "loc C p" and t: "tok_ok C p (js ''[REDACTED_EMAIL]'')" and f: "free p s"
  shows "free p (replaceAll m_email 0 s)"
proof -
  have "rw (\<lambda>s. p s = []) (\<lambda>t. t = js ''[REDACTED_EMAIL]'') s (replaceAll m_email 0 s)"
    using f by (rule replaceAll_rw_other [rotated]) (auto simp: m_email_def dest: first_match_le)
  then show ?thesis using t by (intro rw_free [OF l]) auto
qed

lemma free_step_pwd:
  assumes l: "loc C p" and t: "tok_ok C p (js '': [REDACTED_PWD]'')" and f: "free p s"
  shows "free p (replaceAll m_pwd 0 s)"
proof -
  have "rw (\<lambda>s. p s = []) (\<lambda>t. t = js '': [REDACTED_PWD]'') s (replaceAll m_pwd 0 s)"
    using f by (rule replaceAll_rw_other [rotated]) (rule m_pwd_shape)
  then show ?thesis using t by (intro rw_free [OF l]) auto
qed

lemma free_step_phone:
  assumes l: "loc C p" and t: "tok_ok C p (js ''[REDACTED_PHONE]'')" and f: "free p s"
  shows "free p (replaceAll m_phone 0 s)"
proof -
  have "rw (\<lambda>s. p s = []) (\<lambda>t. t = js ''[REDACTED_PHONE]'') s (replaceAll m_phone 0 s)"
    using f by (rule replaceAll_rw_other [rotated]) (auto simp: m_phone_def dest: first_match_le)
  then show ?thesis using t by (intro rw_free [OF l]) auto
qed

lemma free_own_key: "free api_key_re (replaceAll m_api_key 0 s)"
proof -
  have "rw (\<lambda>s. api_key_re s = []) (\<lambda>t. t = js ''[REDACTED_API_KEY]'') s (replaceAll m_api_key 0 s)"
    by (rule replaceAll_rw_own) (auto simp: m_api_key_def first_match_None)
  then show ?thesis using tok_key(1) by (intro rw_free [OF loc_api_key]) auto
qed

lemma free_own_email: "free email_re (replaceAll m_email 0 s)"
proof -
  have "rw (\<lambda>s. email_re s = []) (\<lambda>t. t = js ''[REDACTED_EMAIL]'') s (replaceAll m_email 0 s)"
    by (rule replaceAll_rw_own) (auto simp: m_email_def first_match_None)
  then show ?thesis using tok_mail(1) by (intro rw_free [OF loc_email]) auto
qed

lemma free_own_phone: "free phone_re (replaceAll m_phone 0 s)"
proof -
  have "rw (\<lambda>s. phone_re s = []) (\<lambda>t. t = js ''[REDACTED_PHONE]'') s (replaceAll m_phone 0 s)"
    by (rule replaceAll_rw_own) (auto simp: m_phone_def first_match_None)
  then show ?thesis using tok_phone by (intro rw_free [OF loc_phone]) auto
qed

lemma redact_free:
  "free api_key_re (redactPII s)" "free email_re (redactPII s)" "free phone_re (redactPII s)"
proof -
  show "free api_key_re (redactPII s)"
    unfolding redactPII_def Let_def
    by (intro free_step_phone [OF loc_api_key tok_key(4)] free_step_pwd [OF loc_api_key tok_key(3)]
              free_step_email [OF loc_api_key tok_key(2)] free_own_key)
  show "free email_re (redactPII s)"
    unfolding redactPII_def Let_def
    by (intro free_step_phone [OF loc_email tok_mail(3)] free_step_pwd [OF loc_email tok_mail(2)]
              free_own_email)
  show "free phone_re (redactPII s)"
    unfolding redactPII_def Let_def by (rule free_own_phone)
qed

lemma lit_ci_ci: "lit_ci K s = (if ci K s then [drop (length K) s] else [])"
proof (induction K arbitrary: s)
  case Nil
  show ?case by (simp add: ci_def up_def)
next
  case (Cons x K)
  show ?case
  proof (cases s)
    case Nil
    then show ?thesis by (simp add: seq_def cls_def ci_def)
  next
    case (Cons c cs)
    then show ?thesis using Cons.IH [of cs] by (auto simp: seq_def cls_def ci_def up_def)
  qed
qed

lemma pwd_keyword_filter:
  "pwd_keyword s = map (\<lambda>K. drop (length K) s) (filter (\<lambda>K. ci K s) kwl)"
  by (simp add: pwd_keyword_def alt_def lit_ci_ci kwl_def)

lemma ci_prefix:
  assumes "ci K s" "ci K' s" "length K \<le> length K'"
  shows "up K = take (length K) (up K')"
proof -
  have "take (length K) (up (take (length K') s)) = up (take (length K) s)"
    using assms(3) by (simp add: up_def take_map min_def)
  then show ?thesis using assms(1,2) by (simp add: ci_def)
qed

lemma kwl_prefix_free:
  "K \<in> set kwl \<Longrightarrow> K' \<in> set kwl \<Longrightarrow> up K = take (length K) (up K') \<Longrightarrow> K = K'"
  by (auto simp: kwl_def js_def up_def to_upper_def is_lower_def)

lemma kw_unique:
  assumes "K \<in> set kwl" "K' \<in> set kwl" "ci K s" "ci K' s"
  shows "K = K'"
proof (cases "length K \<le> length K'")
  case True
  from ci_prefix [OF assms(3,4) True] show ?thesis using kwl_prefix_free assms(1,2) by blast
next
  case False
  then have "length K' \<le> length K" by simp
  from ci_prefix [OF assms(4,3) this] show ?thesis using kwl_prefix_free assms(1,2) by metis
qed

lemma filter_unique:
  "(\<And>x y. x \<in> set xs \<Longrightarrow> y \<in> set xs \<Longrightarrow> P x \<Longrightarrow> P y \<Longrightarrow> x = y) \<Longrightarrow> distinct xs \<Longrightarrow>
   filter P xs = (case find P xs of None \<Rightarrow> [] | Some x \<Rightarrow> [x])"
proof (induction xs)
  case Nil
  show ?case by simp
next
  case (Cons a xs)
  show ?case
  proof (cases "P a")
    case True
    have "filter P xs = []" using Cons.prems True by (auto simp: filter_empty_conv)
    then show ?thesis using True by simp
  next
    case False
    then show ?thesis using Cons by auto
  qed
qed

lemma distinct_kwl: "distinct kwl"
  by (simp add: kwl_def js_def)

lemma pwd_keyword_kw:
  "pwd_keyword s = (case kw s of None \<Rightarrow> [] | Some K \<Rightarrow> [drop (length K) s])"
proof -
  have "filter (\<lambda>K. ci K s) kwl = (case kw s of None \<Rightarrow> [] | Some x \<Rightarrow> [x])"
    unfolding kw_def using kw_unique distinct_kwl by (intro filter_unique) auto
  then show ?thesis by (simp add: pwd_keyword_filter split: option.splits)
qed

lemma kw_Some: "kw s = Some K \<longleftrightarrow> K \<in> set kwl \<and> ci K s"
proof
  assume "kw s = Some K"
  then show "K \<in> set kwl \<and> ci K s" unfolding kw_def by (auto simp: find_Some_iff)
next
  assume a: "K \<in> set kwl \<and> ci K s"
  then have "kw s \<noteq> None" unfolding kw_def by (auto simp: find_None_iff)
  then obtain K' where K': "kw s = Some K'" by auto
  then have "K' \<in> set kwl \<and> ci K' s" unfolding kw_def by (auto simp: find_Some_iff)
  then have "K' = K" using kw_unique a by blast
  then show "kw s = Some K" using K' by simp
qed

lemma kw_None: "kw s = None \<longleftrightarrow> (\<forall>K \<in> set kwl. \<not> ci K s)"
  unfolding kw_def by (auto simp: find_None_iff)

lemma seq_many_skip:
  assumes "\<And>c cs. P c \<Longrightarrow> q (c # cs) = []"
  shows "seq (many P) q s = q (dropWhile P s)"
proof (induction s)
  case Nil
  show ?case by (simp add: seq_def)
next
  case (Cons c cs)
  show ?case
  proof (cases "P c")
    case True
    have "seq (many P) q (c # cs) = seq (many P) q cs @ q (c # cs)"
      using True by (simp add: seq_def)
    then show ?thesis using True Cons assms by simp
  next
    case False
    then show ?thesis by (simp add: seq_def)
  qed
qed

lemma many_hd: "\<exists>xs. many P s = dropWhile P s # xs"
  by (induction s) auto

lemma space_not_sep: "is_space c \<Longrightarrow> c \<noteq> 58 \<and> c \<noteq> 61"
  by (auto simp: is_space_def)

lemma pwd_tail_end: "(case pwd_tail s of [] \<Rightarrow> None | r # _ \<Rightarrow> Some r) = tail_end s"
proof -
  let ?q2 = "seq (many is_space) (many1 pwd_value)"
  let ?q1 = "seq (cls (\<lambda>c. c = 58 \<or> c = 61)) ?q2"
  have q2: "?q2 s = many1 pwd_value (dropWhile is_space s)" for s
    by (rule seq_many_skip) (simp add: many1_def seq_def cls_def pwd_value_def)
  have q1: "pwd_tail s = ?q1 (dropWhile is_space s)"
    unfolding pwd_tail_def
    by (rule seq_many_skip) (auto simp: seq_def cls_def dest: space_not_sep)
  show ?thesis
  proof (cases "dropWhile is_space s")
    case Nil
    show ?thesis unfolding q1 tail_end_def Nil by (simp add: seq_def cls_def)
  next
    case (Cons c s2)
    show ?thesis
    proof (cases "c = 58 \<or> c = 61")
      case False
      then show ?thesis unfolding q1 tail_end_def Cons by (simp add: seq_def cls_def)
    next
      case True
      then have a: "pwd_tail s = many1 pwd_value (dropWhile is_space s2)"
        unfolding q1 Cons using q2 [of s2] by (simp add: seq_def [of "cls _"] cls_def)
      show ?thesis
      proof (cases "dropWhile is_space s2")
        case Nil
        show ?thesis unfolding a tail_end_def
          using True by (simp add: many1_def seq_def cls_def \<open>dropWhile is_space s = c # s2\<close> Nil)
      next
        case (Cons v s4)
        obtain xs where "many pwd_value s4 = dropWhile pwd_value s4 # xs"
          using many_hd by blast
        then show ?thesis unfolding a tail_end_def
          using True by (simp add: many1_def seq_def cls_def \<open>dropWhile is_space s = c # s2\<close> Cons)
      qed
    qed
  qed
qed

lemma m_pwd_char:
  "m_pwd s =
     (case kw s of
        None \<Rightarrow> None
      | Some K \<Rightarrow>
          (case tail_end (drop (length K) s) of
             None \<Rightarrow> None
           | Some rest \<Rightarrow> Some (length s - length rest, take (length K) s @ js '': [REDACTED_PWD]'')))"
proof (cases "kw s")
  case None
  then show ?thesis by (simp add: m_pwd_def pwd_keyword_kw)
next
  case (Some K)
  then have "length K \<le> length s" by (simp add: kw_Some ci_def)
  then have l: "length s - (length s - length K) = length K" by simp
  show ?thesis using Some
    by (simp add: m_pwd_def pwd_keyword_kw l pwd_tail_end [symmetric] split: list.splits)
qed

subsubsection \<open>The keyword of the password pattern\<close>

lemma kw_len: "kw s = Some K \<Longrightarrow> length K \<le> length s"
  by (simp add: kw_Some ci_def)

lemma kw_det:
  "kw s = Some K \<Longrightarrow> take (length K) s' = take (length K) s \<Longrightarrow> length K \<le> length s' \<Longrightarrow>
   kw s' = Some K"
  by (simp add: kw_Some ci_def)

lemma kw_take: "kw s = Some K \<Longrightarrow> kw (take (length K) s @ Z) = Some K"
  by (rule kw_det) (auto dest: kw_len)

lemma kwl_facts:
  assumes "K \<in> set kwl"
  shows "K \<noteq> []" and "up K \<noteq> []" and "hd (up K) = 80 \<or> hd (up K) = 48708"
    and "list_all (\<lambda>c. c \<noteq> 80 \<and> c \<noteq> 48708) (tl (up K))"
    and "set (up K) \<subseteq> set (concat (map up kwl))"
  using assms by (auto simp: kwl_def js_def up_def to_upper_def is_lower_def)

lemma kw_up: "kw s = Some K \<Longrightarrow> up (take (length K) s) = up K"
  by (simp add: kw_Some ci_def)

lemma kw_first:
  assumes "kw s = Some K"
  shows "s \<noteq> []" and "kw_start (hd s)"
proof -
  have K: "K \<in> set kwl" using assms by (simp add: kw_Some)
  have ne: "take (length K) s \<noteq> []" using kw_up [OF assms] kwl_facts(2) [OF K] by (auto simp: up_def)
  then show "s \<noteq> []" by auto
  have "hd (up (take (length K) s)) = to_upper (hd s)"
    using ne by (cases s; cases "length K") (auto simp: up_def)
  then show "kw_start (hd s)" using kw_up [OF assms] kwl_facts(3) [OF K] by (simp add: kw_start_def)
qed

lemma not_start: "\<not> kw_start c \<Longrightarrow> kw (c # s) = None"
  using kw_first(2) [of "c # s"] by (cases "kw (c # s)") auto

lemma kw_Nil: "kw [] = None"
  using kw_first(1) [of "[]"] by (cases "kw []") auto

lemma kw_inner:
  assumes "kw s = Some K"
  shows "list_all (\<lambda>c. \<not> kw_start c) (tl (take (length K) s))"
proof -
  have K: "K \<in> set kwl" using assms by (simp add: kw_Some)
  have "map to_upper (tl (take (length K) s)) = tl (up K)"
    using kw_up [OF assms] by (simp add: up_def map_tl)
  then have "list_all (\<lambda>c. c \<noteq> 80 \<and> c \<noteq> 48708) (map to_upper (tl (take (length K) s)))"
    using kwl_facts(4) [OF K] by simp
  then show ?thesis by (simp add: list_all_iff kw_start_def)
qed

lemma kw_chars:
  assumes "kw s = Some K"
  shows "list_all kwc (take (length K) s)"
proof -
  have K: "K \<in> set kwl" using assms by (simp add: kw_Some)
  have "set (map to_upper (take (length K) s)) \<subseteq> set (concat (map up kwl))"
    using kw_up [OF assms] kwl_facts(5) [OF K] by (simp add: up_def)
  then show ?thesis by (auto simp: list_all_iff kwc_def)
qed

lemma kwc_props:
  assumes "kwc c"
  shows "\<not> is_space c" "c \<noteq> 58" "c \<noteq> 61" "c \<noteq> 48" "c \<noteq> 44" "pwd_value c"
  using assms
  by (auto simp: kwc_def kwl_def js_def up_def to_upper_def is_lower_def is_space_def pwd_value_def
           split: if_splits)

lemma kw_bound:
  assumes "kw (A @ c # Z) = Some K" "\<not> kwc c"
  shows "length K \<le> length A"
proof (rule ccontr)
  assume "\<not> length K \<le> length A"
  then have "c \<in> set (take (length K) (A @ c # Z))" by (auto simp: take_Cons' )
  then show False using kw_chars [OF assms(1)] assms(2) by (auto simp: list_all_iff)
qed

subsubsection \<open>The end of a password match\<close>

lemma ph2_dropWhile:
  "ph2 s = (case dropWhile is_space s of [] \<Rightarrow> None
            | v # s4 \<Rightarrow> if pwd_value v then Some (dropWhile pwd_value s4) else None)"
  by (induction s) auto

lemma tail_end_ph: "tail_end s = ph1 s"
  by (induction s) (auto simp: tail_end_def ph2_dropWhile dest: space_not_sep)

lemma ph2_decided:
  "y \<noteq> [] \<Longrightarrow> \<not> is_space (last y) \<Longrightarrow> (ph2 (y @ Z) = None \<longleftrightarrow> ph2 (y @ Z') = None)"
  by (induction y) (auto split: if_splits)

lemma ph1_decided:
  "y \<noteq> [] \<Longrightarrow> \<not> is_space (last y) \<Longrightarrow> last y \<noteq> 58 \<Longrightarrow> last y \<noteq> 61 \<Longrightarrow>
   (ph1 (y @ Z) = None \<longleftrightarrow> ph1 (y @ Z') = None)"
proof (induction y)
  case Nil
  then show ?case by simp
next
  case (Cons c y)
  show ?case
  proof (cases "y = []")
    case True
    then show ?thesis using Cons.prems by simp
  next
    case False
    then show ?thesis using Cons ph2_decided [of y Z Z'] by auto
  qed
qed

lemma ph2_zero: "ph2 (y @ 48 # Z) = None \<Longrightarrow> ph2 (y @ 91 # Z') = None"
  by (induction y) (auto simp: pwd_value_def is_space_def split: if_splits)

lemma ph1_zero: "ph1 (y @ 48 # Z) = None \<Longrightarrow> ph1 (y @ 91 # Z') = None"
  by (induction y) (auto simp: is_space_def dest: ph2_zero split: if_splits)

lemma ph2_suffix:
  "ph2 s = Some rest \<Longrightarrow> \<exists>w. s = w @ rest \<and> w \<noteq> [] \<and> (rest = [] \<or> \<not> pwd_value (hd rest))"
proof (induction s)
  case Nil
  then show ?case by simp
next
  case (Cons v cs)
  show ?case
  proof (cases "is_space v")
    case True
    then obtain w where "cs = w @ rest" "rest = [] \<or> \<not> pwd_value (hd rest)"
      using Cons by auto
    then have "v # cs = (v # w) @ rest \<and> v # w \<noteq> [] \<and> (rest = [] \<or> \<not> pwd_value (hd rest))" by simp
    then show ?thesis by blast
  next
    case False
    then have r: "rest = dropWhile pwd_value cs" using Cons.prems by (auto split: if_splits)
    then have "v # cs = (v # takeWhile pwd_value cs) @ rest" by simp
    moreover have "rest = [] \<or> \<not> pwd_value (hd rest)" unfolding r using hd_dropWhile by blast
    ultimately show ?thesis by blast
  qed
qed

lemma ph1_suffix:
  "ph1 s = Some rest \<Longrightarrow> \<exists>w. s = w @ rest \<and> w \<noteq> [] \<and> (rest = [] \<or> \<not> pwd_value (hd rest))"
proof (induction s)
  case Nil
  then show ?case by simp
next
  case (Cons c cs)
  show ?case
  proof (cases "is_space c")
    case True
    then obtain w where "cs = w @ rest" "rest = [] \<or> \<not> pwd_value (hd rest)"
      using Cons by auto
    then have "c # cs = (c # w) @ rest \<and> c # w \<noteq> [] \<and> (rest = [] \<or> \<not> pwd_value (hd rest))" by simp
    then show ?thesis by blast
  next
    case False
    then have "ph2 cs = Some rest" using Cons.prems by (auto split: if_splits)
    from ph2_suffix [OF this] obtain w where "cs = w @ rest" "rest = [] \<or> \<not> pwd_value (hd rest)"
      by blast
    then have "c # cs = (c # w) @ rest \<and> c # w \<noteq> [] \<and> (rest = [] \<or> \<not> pwd_value (hd rest))" by simp
    then show ?thesis by blast
  qed
qed

lemma ph1_token:
  assumes "rest = [] \<or> \<not> pwd_value (hd rest)"
  shows "ph1 (js '': [REDACTED_PWD]'' @ rest) = Some rest"
proof -
  have "dropWhile pwd_value rest = rest" using assms by (cases rest) auto
  then show ?thesis by (simp add: js_def is_space_def pwd_value_def)
qed

subsubsection \<open>Settled positions\<close>

lemma m_pwd_None_kw: "kw t = None \<Longrightarrow> m_pwd t = None"
  by (simp add: m_pwd_char)

lemma m_pwd_None_tail: "kw t = Some K \<Longrightarrow> ph1 (drop (length K) t) = None \<Longrightarrow> m_pwd t = None"
  by (simp add: m_pwd_char tail_end_ph)

lemma m_pwd_Some:
  "m_pwd t = Some (n, r) \<longleftrightarrow>
   (\<exists>K rest. kw t = Some K \<and> ph1 (drop (length K) t) = Some rest \<and>
              n = length t - length rest \<and> r = take (length K) t @ js '': [REDACTED_PWD]'')"
  by (auto simp: m_pwd_char tail_end_ph split: option.splits)

lemma good_fix:
  assumes "pwd_good t"
  shows "m_pwd t = None \<or> (\<exists>n. m_pwd t = Some (n, take n t) \<and> 0 < n)"
proof (cases "m_pwd t = None")
  case True
  then show ?thesis by simp
next
  case False
  then have "\<exists>K rest. kw t = Some K \<and> drop (length K) t = js '': [REDACTED_PWD]'' @ rest \<and>
                (rest = [] \<or> \<not> pwd_value (hd rest))"
    using assms unfolding pwd_good_def by auto
  then obtain K rest where K: "kw t = Some K"
    and d: "drop (length K) t = js '': [REDACTED_PWD]'' @ rest"
    and r: "rest = [] \<or> \<not> pwd_value (hd rest)"
    by blast
  let ?tok = "js '': [REDACTED_PWD]''"
  have t: "t = take (length K) t @ ?tok @ rest" using d by (metis append_take_drop_id)
  have lk: "length (take (length K) t) = length K" using kw_len [OF K] by simp
  have len: "length t = length K + length ?tok + length rest"
    using arg_cong [OF t, of length] lk by simp
  have n: "length t - length rest = length K + length ?tok" using len by simp
  have "take (length K + length ?tok) t = take (length K) t @ ?tok"
  proof -
    have "take (length K + length ?tok) (take (length K) t @ ?tok @ rest) = take (length K) t @ ?tok"
      using lk by simp
    then show ?thesis using t by simp
  qed
  then have "m_pwd t = Some (length K + length ?tok, take (length K + length ?tok) t)"
    using K ph1_token [OF r] d n by (simp add: m_pwd_Some)
  moreover have "0 < length K + length ?tok" by (simp add: js_def)
  ultimately show ?thesis by blast
qed

lemma stable_append: "pwd_stable (x @ y) \<Longrightarrow> pwd_stable y"
  by (induction x) auto

lemma stable_drop: "pwd_stable t \<Longrightarrow> pwd_stable (drop n t)"
  using stable_append [of "take n t" "drop n t"] by simp

lemma stable_id: "pwd_stable t \<Longrightarrow> replaceAll m_pwd 0 t = t"
proof (induction t rule: length_induct)
  case (1 t)
  show ?case
  proof (cases t)
    case Nil
    then show ?thesis by simp
  next
    case (Cons c cs)
    have g: "pwd_good (c # cs)" and st: "pwd_stable cs" using 1(2) Cons by auto
    from good_fix [OF g] show ?thesis
    proof
      assume "m_pwd (c # cs) = None"
      moreover have "replaceAll m_pwd 0 cs = cs" using 1 st Cons by simp
      ultimately show ?thesis using Cons by simp
    next
      assume "\<exists>n. m_pwd (c # cs) = Some (n, take n (c # cs)) \<and> 0 < n"
      then obtain n where n: "m_pwd (c # cs) = Some (n, take n (c # cs))" "0 < n" by blast
      have "replaceAll m_pwd 0 (drop (n - 1) cs) = drop (n - 1) cs"
        using 1 Cons stable_drop [OF st] by simp
      then have "replaceAll m_pwd (n - 1) cs = drop (n - 1) cs"
        using replaceAll_skip [of m_pwd "n - 1" cs] by simp
      moreover have "take n (c # cs) @ drop (n - 1) cs = c # cs"
        using n(2) by (cases n) simp_all
      ultimately show ?thesis using n(1) Cons by simp
    qed
  qed
qed

lemma nk_good: "\<not> kw_start c \<Longrightarrow> pwd_good (c # s)"
  by (simp add: pwd_good_def m_pwd_None_kw not_start)

lemma nk_stable: "list_all (\<lambda>c. \<not> kw_start c) w \<Longrightarrow> pwd_stable Z \<Longrightarrow> pwd_stable (w @ Z)"
  by (induction w) (auto simp: nk_good)

lemma value_not_start: "\<not> pwd_value c \<Longrightarrow> \<not> kw_start c"
  by (auto simp: pwd_value_def kw_start_def to_upper_def is_lower_def is_space_def split: if_splits)

lemma tok_pwd_stable:
  assumes "pwd_stable Z"
  shows "pwd_stable (js '': [REDACTED_PWD]'' @ Z)"
proof -
  have k: "kw (80 # 87 # 68 # 93 # Z) = Some (js ''pwd'')"
    by (simp add: kw_Some kwl_def ci_def js_def up_def to_upper_def is_lower_def)
  have "m_pwd (80 # 87 # 68 # 93 # Z) = None"
    by (rule m_pwd_None_tail [OF k]) (simp add: js_def is_space_def)
  then have g: "pwd_good (80 # 87 # 68 # 93 # Z)" by (simp add: pwd_good_def)
  have "pwd_stable ([87, 68, 93] @ Z)"
    by (rule nk_stable [OF _ assms]) (simp add: kw_start_def to_upper_def is_lower_def)
  then have s4: "pwd_stable ([80, 87, 68, 93] @ Z)" using g by simp
  have "pwd_stable ([58, 32, 91, 82, 69, 68, 65, 67, 84, 69, 68, 95] @ [80, 87, 68, 93] @ Z)"
    by (rule nk_stable [OF _ s4]) (simp add: kw_start_def to_upper_def is_lower_def)
  then show ?thesis by (simp add: js_def)
qed

lemma tok_phone_stable:
  assumes "pwd_stable Z"
  shows "pwd_stable (js ''[REDACTED_PHONE]'' @ Z)"
proof -
  have "kw (80 # 72 # 79 # 78 # 69 # 93 # Z) = None"
    by (simp add: kw_None kwl_def ci_def js_def up_def to_upper_def is_lower_def)
  then have g: "pwd_good (80 # 72 # 79 # 78 # 69 # 93 # Z)" by (simp add: pwd_good_def m_pwd_None_kw)
  have "pwd_stable ([72, 79, 78, 69, 93] @ Z)"
    by (rule nk_stable [OF _ assms]) (simp add: kw_start_def to_upper_def is_lower_def)
  then have s6: "pwd_stable ([80, 72, 79, 78, 69, 93] @ Z)" using g by simp
  have "pwd_stable ([91, 82, 69, 68, 65, 67, 84, 69, 68, 95] @ [80, 72, 79, 78, 69, 93] @ Z)"
    by (rule nk_stable [OF _ s6]) (simp add: kw_start_def to_upper_def is_lower_def)
  then show ?thesis by (simp add: js_def)
qed

subsubsection \<open>The password replacement\<close>

lemma m_pwd_tail_None:
  "m_pwd t = None \<Longrightarrow> kw t = Some K \<Longrightarrow> ph1 (drop (length K) t) = None"
  by (simp add: m_pwd_char tail_end_ph split: option.splits)

lemma pwd_unmatched_prefix:
  "x \<noteq> [] \<Longrightarrow> m_pwd (x @ s) = None \<Longrightarrow> m_pwd (x @ replaceAll m_pwd 0 s) = None"
proof (induction s arbitrary: x)
  case Nil
  then show ?case by simp
next
  case (Cons d s')
  show ?case
  proof (cases "m_pwd (d # s')")
    case None
    have "m_pwd ((x @ [d]) @ replaceAll m_pwd 0 s') = None"
      using Cons.prems by (intro Cons.IH) simp_all
    then show ?thesis using None by simp
  next
    case (Some a)
    obtain n r where a: "a = (n, r)" by (cases a)
    from Some [unfolded a m_pwd_Some] obtain Kq rest where
      Kq: "kw (d # s') = Some Kq" and r: "r = take (length Kq) (d # s') @ js '': [REDACTED_PWD]''"
      by blast
    let ?kq = "take (length Kq) (d # s')"
    let ?A = "x @ ?kq"
    let ?R = "replaceAll m_pwd (n - 1) s'"
    let ?t1 = "?A @ drop (length Kq) (d # s')"
    let ?t2 = "?A @ 58 # js '' [REDACTED_PWD]'' @ ?R"
    have out: "x @ replaceAll m_pwd 0 (d # s') = ?t2"
      using Some a r by (simp add: js_def)
    have t1: "x @ d # s' = ?t1" by simp
    have kq_ne: "?kq \<noteq> []" using kw_first(1) [OF Kq] kwl_facts(1) [of Kq] Kq
      by (auto simp: kw_Some)
    have hd_kq: "hd ?kq = d" using kq_ne by (cases "length Kq") auto
    have "m_pwd ?t2 = None"
    proof (cases "kw ?t2")
      case None
      then show ?thesis by (rule m_pwd_None_kw)
    next
      case (Some K)
      have b: "length K \<le> length ?A"
        by (rule kw_bound [OF Some])
           (simp add: kwc_def kwl_def js_def up_def to_upper_def is_lower_def)
      have k1: "kw ?t1 = Some K" using Some b by (intro kw_det [OF Some]) auto
      have "length K \<noteq> length ?A"
      proof
        assume e: "length K = length ?A"
        have ta: "take (length A) (A @ Z) = A" for A Z :: jstring by simp
        have "take (length ?A) ?t2 = ?A" by (rule ta)
        then have "take (length K) ?t2 = ?A" by (simp only: e)
        moreover have "list_all (\<lambda>c. \<not> kw_start c) (tl (take (length K) ?t2))"
          by (rule kw_inner [OF Some])
        ultimately have "list_all (\<lambda>c. \<not> kw_start c) (tl ?A)" by simp
        then have "list_all (\<lambda>c. \<not> kw_start c) (tl x @ ?kq)" using Cons.prems(1) by simp
        then have "\<not> kw_start (hd ?kq)" using kq_ne by (cases ?kq) auto
        then show False using kw_first(2) [OF Kq] hd_kq by simp
      qed
      then have lt: "length K < length ?A" using b by simp
      let ?y = "drop (length K) ?A"
      have y: "?y \<noteq> []"
      proof
        assume "?y = []"
        then have "length ?A \<le> length K" by (simp only: drop_eq_Nil)
        then show False using lt by linarith
      qed
      have "last ?y = last ?A" using lt by (rule last_drop)
      also have "last ?A = last ?kq" using kq_ne by (rule last_appendR)
      finally have ll: "last ?y = last ?kq" .
      have "kwc (last ?kq)" using kw_chars [OF Kq] kq_ne by (auto simp: list_all_iff)
      then have kl: "kwc (last ?y)" by (simp only: ll)
      have ly: "\<not> is_space (last ?y)" "last ?y \<noteq> 58" "last ?y \<noteq> 61"
        by (rule kwc_props(1) [OF kl], rule kwc_props(2) [OF kl], rule kwc_props(3) [OF kl])
      have da: "drop n (A @ Z) = drop n A @ Z" if "n \<le> length A" for n and A Z :: jstring
        using that by simp
      have "m_pwd ?t1 = None" using Cons.prems(2) by simp
      then have "ph1 (drop (length K) ?t1) = None" using k1 by (rule m_pwd_tail_None)
      then have "ph1 (?y @ drop (length Kq) (d # s')) = None" by (simp only: da [OF b])
      then have "ph1 (?y @ 58 # js '' [REDACTED_PWD]'' @ ?R) = None"
        using ph1_decided [OF y ly] by blast
      then have "ph1 (drop (length K) ?t2) = None" by (simp only: da [OF b])
      then show ?thesis by (rule m_pwd_None_tail [OF Some])
    qed
    then show ?thesis using out by simp
  qed
qed

lemma replace_pwd_hd:
  assumes "rest = [] \<or> \<not> pwd_value (hd rest)"
  shows "replaceAll m_pwd 0 rest = [] \<or> \<not> pwd_value (hd (replaceAll m_pwd 0 rest))"
proof (cases rest)
  case Nil
  then show ?thesis by simp
next
  case (Cons d rs)
  then have "\<not> kw_start d" using assms value_not_start by auto
  then have "m_pwd (d # rs) = None" by (simp add: m_pwd_None_kw not_start)
  then show ?thesis using Cons assms by simp
qed

lemma replace_pwd_stable: "pwd_stable (replaceAll m_pwd 0 V)"
proof (induction V rule: length_induct)
  case (1 V)
  show ?case
  proof (cases V)
    case Nil
    then show ?thesis by simp
  next
    case (Cons c cs)
    show ?thesis
    proof (cases "m_pwd (c # cs)")
      case None
      have "pwd_stable (replaceAll m_pwd 0 cs)" using 1 Cons by simp
      moreover have "m_pwd ([c] @ replaceAll m_pwd 0 cs) = None"
        using None by (intro pwd_unmatched_prefix) simp_all
      ultimately show ?thesis using None Cons by (simp add: pwd_good_def)
    next
      case (Some a)
      obtain n r where a: "a = (n, r)" by (cases a)
      from Some [unfolded a m_pwd_Some] obtain K rest where
        K: "kw (c # cs) = Some K" and p: "ph1 (drop (length K) (c # cs)) = Some rest"
        and n: "n = length (c # cs) - length rest"
        and r: "r = take (length K) (c # cs) @ js '': [REDACTED_PWD]''"
        by blast
      let ?kq = "take (length K) (c # cs)"
      from ph1_suffix [OF p] obtain w where w: "drop (length K) (c # cs) = w @ rest" "w \<noteq> []"
        "rest = [] \<or> \<not> pwd_value (hd rest)" by blast
      have V: "c # cs = ?kq @ w @ rest" using w(1) by (metis append_take_drop_id)
      have lk: "length ?kq = length K" using kw_len [OF K] by simp
      have len: "length (c # cs) = length K + length w + length rest"
        using arg_cong [OF V, of length] lk by simp
      have n': "n = length K + length w" using n len by simp
      have "drop n (c # cs) = rest"
      proof -
        have "drop n (?kq @ w @ rest) = rest" using n' lk by simp
        then show ?thesis using V by simp
      qed
      moreover have "0 < n" using n' w(2) by simp
      ultimately have dr: "drop (n - 1) cs = rest" by (cases n) simp_all
      have "length rest < length V" using len Cons w(2) by simp
      then have st: "pwd_stable (replaceAll m_pwd 0 rest)" using 1 by simp
      let ?out = "?kq @ js '': [REDACTED_PWD]'' @ replaceAll m_pwd 0 rest"
      have out: "replaceAll m_pwd 0 (c # cs) = ?out"
        using Some a r dr replaceAll_skip [of m_pwd "n - 1" cs] by simp
      have "?kq \<noteq> []" using lk kwl_facts(1) [of K] K by (auto simp: kw_Some)
      then obtain kt where kt: "?kq = c # kt" by (cases "length K") auto
      have "kw ?out = Some K" by (rule kw_take [OF K])
      moreover have "drop (length K) ?out = js '': [REDACTED_PWD]'' @ replaceAll m_pwd 0 rest"
        using lk by simp
      ultimately have g: "pwd_good ?out" using replace_pwd_hd [OF w(3)] unfolding pwd_good_def by blast
      have "pwd_stable (tl ?kq @ js '': [REDACTED_PWD]'' @ replaceAll m_pwd 0 rest)"
        by (rule nk_stable [OF kw_inner [OF K] tok_pwd_stable [OF st]])
      then have "pwd_stable ?out" using g unfolding kt by simp
      then show ?thesis using out Cons by simp
    qed
  qed
qed

subsubsection \<open>The phone replacement after it\<close>

lemma phone_first: "c \<noteq> 48 \<Longrightarrow> m_phone (c # s) = None"
  by (simp add: m_phone_def first_match_def phone_re_def seq_def cls_def js_def)

lemma phone_token: "m_phone s = Some (n, r) \<Longrightarrow> r = js ''[REDACTED_PHONE]''"
  by (auto simp: m_phone_def)

lemma replace_phone_keep:
  "list_all (\<lambda>c. c \<noteq> 48) w \<Longrightarrow> replaceAll m_phone 0 (w @ Z) = w @ replaceAll m_phone 0 Z"
  by (induction w) (simp_all add: phone_first)

lemma phone_unmatched_prefix:
  "m_pwd (x @ s) = None \<Longrightarrow> m_pwd (x @ replaceAll m_phone 0 s) = None"
proof (induction s arbitrary: x)
  case Nil
  then show ?case by simp
next
  case (Cons d s')
  show ?case
  proof (cases "m_phone (d # s')")
    case None
    have "m_pwd ((x @ [d]) @ replaceAll m_phone 0 s') = None"
      using Cons.prems by (intro Cons.IH) simp
    then show ?thesis using None by simp
  next
    case (Some a)
    obtain n r where a: "a = (n, r)" by (cases a)
    have d: "d = 48" using Some phone_first [of d s'] by (cases "d = 48") auto
    let ?R = "replaceAll m_phone (n - 1) s'"
    let ?t2 = "x @ 91 # js ''REDACTED_PHONE]'' @ ?R"
    have out: "x @ replaceAll m_phone 0 (d # s') = ?t2"
      using Some a phone_token [OF Some [unfolded a]] by (simp add: js_def)
    have "m_pwd ?t2 = None"
    proof (cases "kw ?t2")
      case None
      then show ?thesis by (rule m_pwd_None_kw)
    next
      case (Some K)
      have b: "length K \<le> length x"
        by (rule kw_bound [OF Some])
           (simp add: kwc_def kwl_def js_def up_def to_upper_def is_lower_def)
      have k1: "kw (x @ 48 # s') = Some K" using b by (intro kw_det [OF Some]) auto
      have "ph1 (drop (length K) (x @ 48 # s')) = None"
        using m_pwd_tail_None [OF _ k1] Cons.prems d by simp
      then have "ph1 (drop (length K) x @ 48 # s') = None" using b by simp
      then have "ph1 (drop (length K) x @ 91 # js ''REDACTED_PHONE]'' @ ?R) = None"
        by (rule ph1_zero)
      then have "ph1 (drop (length K) ?t2) = None" using b by simp
      then show ?thesis by (rule m_pwd_None_tail [OF Some])
    qed
    then show ?thesis using out by simp
  qed
qed

lemma replace_phone_hd:
  assumes "rest = [] \<or> \<not> pwd_value (hd rest)"
  shows "replaceAll m_phone 0 rest = [] \<or> \<not> pwd_value (hd (replaceAll m_phone 0 rest))"
proof (cases rest)
  case Nil
  then show ?thesis by simp
next
  case (Cons d rs)
  then have "d \<noteq> 48" using assms by (auto simp: pwd_value_def is_space_def)
  then have "m_phone (d # rs) = None" by (rule phone_first)
  then show ?thesis using Cons assms by simp
qed

lemma replace_phone_stable: "pwd_stable U \<Longrightarrow> pwd_stable (replaceAll m_phone 0 U)"
proof (induction U rule: length_induct)
  case (1 U)
  show ?case
  proof (cases U)
    case Nil
    then show ?thesis by simp
  next
    case (Cons c cs)
    have g: "pwd_good (c # cs)" and st: "pwd_stable cs" using 1(2) Cons by auto
    show ?thesis
    proof (cases "m_phone (c # cs)")
      case None
      have rest: "pwd_stable (replaceAll m_phone 0 cs)" using 1 st Cons by simp
      have out: "replaceAll m_phone 0 (c # cs) = c # replaceAll m_phone 0 cs" using None by simp
      have "pwd_good (c # replaceAll m_phone 0 cs)"
      proof (cases "m_pwd (c # cs) = None")
        case True
        then have "m_pwd ([c] @ replaceAll m_phone 0 cs) = None"
          by (intro phone_unmatched_prefix) simp
        then show ?thesis by (simp add: pwd_good_def)
      next
        case False
        then have "\<exists>K rest. kw (c # cs) = Some K \<and>
                     drop (length K) (c # cs) = js '': [REDACTED_PWD]'' @ rest \<and>
                     (rest = [] \<or> \<not> pwd_value (hd rest))"
          using g unfolding pwd_good_def by auto
        then obtain K rest where K: "kw (c # cs) = Some K"
          and d: "drop (length K) (c # cs) = js '': [REDACTED_PWD]'' @ rest"
          and r: "rest = [] \<or> \<not> pwd_value (hd rest)" by blast
        let ?kq = "take (length K) (c # cs)"
        let ?tok = "js '': [REDACTED_PWD]''"
        have U: "c # cs = (?kq @ ?tok) @ rest" using d by (metis append_take_drop_id append.assoc)
        have lk: "length ?kq = length K" using kw_len [OF K] by simp
        have "list_all (\<lambda>c. c \<noteq> 48) ?kq"
          using kw_chars [OF K] kwc_props(4) by (auto simp: list_all_iff)
        moreover have "list_all (\<lambda>c. c \<noteq> 48) ?tok" by (simp add: js_def)
        ultimately have "list_all (\<lambda>c. c \<noteq> 48) (?kq @ ?tok)" by simp
        from replace_phone_keep [OF this, of rest]
        have e: "c # replaceAll m_phone 0 cs = ?kq @ ?tok @ replaceAll m_phone 0 rest"
          using U out by simp
        have "kw (?kq @ ?tok @ replaceAll m_phone 0 rest) = Some K" by (rule kw_take [OF K])
        moreover have "drop (length K) (?kq @ ?tok @ replaceAll m_phone 0 rest)
                       = ?tok @ replaceAll m_phone 0 rest" using lk by simp
        ultimately have "pwd_good (?kq @ ?tok @ replaceAll m_phone 0 rest)"
          using replace_phone_hd [OF r] unfolding pwd_good_def by blast
        then show ?thesis using e by simp
      qed
      then show ?thesis using rest out Cons by simp
    next
      case (Some a)
      obtain n r where a: "a = (n, r)" by (cases a)
      have "pwd_stable (replaceAll m_phone 0 (drop (n - 1) cs))"
        using 1 Cons stable_drop [OF st] by simp
      then have "pwd_stable (js ''[REDACTED_PHONE]'' @ replaceAll m_phone 0 (drop (n - 1) cs))"
        by (rule tok_phone_stable)
      then show ?thesis
        using Some a phone_token [OF Some [unfolded a]] replaceAll_skip [of m_phone "n - 1" cs] Cons
        by simp
    qed
  qed
qed

text \<open>
  C9: redacting a redacted text changes nothing. After the four replacements the text is
  free of the API key, e-mail and phone patterns, and at every position the password
  pattern matches it writes back what it found.
\<close>

theorem C9_redact_idempotent: "redactPII (redactPII s) = redactPII s"
proof -
  let ?T = "redactPII s"
  have 1: "replaceAll m_api_key 0 ?T = ?T"
    by (rule replaceAll_free [OF _ redact_free(1)]) (simp add: m_api_key_def first_match_None)
  have 2: "replaceAll m_email 0 ?T = ?T"
    by (rule replaceAll_free [OF _ redact_free(2)]) (simp add: m_email_def first_match_None)
  have "pwd_stable ?T"
    unfolding redactPII_def Let_def by (intro replace_phone_stable replace_pwd_stable)
  then have 3: "replaceAll m_pwd 0 ?T = ?T" by (rule stable_id)
  have 4: "replaceAll m_phone 0 ?T = ?T"
    by (rule replaceAll_free [OF _ redact_free(3)]) (simp add: m_phone_def first_match_None)
  have "redactPII ?T = replaceAll m_phone 0 (replaceAll m_pwd 0 (replaceAll m_email 0 (replaceAll m_api_key 0 ?T)))"
    by (simp add: redactPII_def [of ?T] Let_def)
  then show ?thesis using 1 2 3 4 by simp
qed

subsection \<open>C10: the session scope without a session\<close>

lemma wm_fold_kw:
  "working_memory (fold (\<lambda>kw r. r\<lparr>kw_sets := (kw_sets r)(toLowerCase kw := sadd i (kw_sets r (toLowerCase kw)))\<rparr>) kws rd)
   = working_memory rd"
  by (induction kws arbitrary: rd) auto

lemma wm_index_fragment:
  "working_memory (index_fragment e i kws tp ty sid rd) = working_memory rd"
  by (simp add: index_fragment_def Let_def wm_fold_kw split: option.splits)

lemma wm_fold_cache:
  "working_memory (fold (\<lambda>f r. cacheFragment (frag_id f) f r) fs rd) = working_memory rd"
  by (induction fs arbitrary: rd) (auto simp: cacheFragment_def)

lemma wm_search: "working_memory (snd (snd (search e q st))) = working_memory (snd st)"
  by (simp add: search_def Let_def wm_fold_cache)

lemma wm_detectConflicts:
  "working_memory (snd (snd (detectConflicts e c tp i st))) = working_memory (snd st)"
  by (simp add: detectConflicts_def Let_def split_beta wm_search)

lemma create_scope: "create e n (q\<lparr>p_scope := s\<rparr>) = create e n q"
  by (simp add: create_def Let_def)

lemma core_createLink:
  "createLink a b r ag d = Inr d' \<Longrightarrow> map row_core (fragments d') = map row_core (fragments d)"
  by (auto simp: createLink_def add_linked_def comp_def row_core_def split: if_splits)

lemma core_fold_link:
  "map row_core (fragments (fold (\<lambda>x d'. case createLink (f x) (g x) (h x) ag d' of
                                         Inl err \<Rightarrow> d' | Inr d'' \<Rightarrow> d'') xs d))
   = map row_core (fragments d)"
  by (induction xs arbitrary: d) (auto simp: core_createLink split: sum.splits)

lemma core_search:
  "map row_core (fragments (fst (snd (search e q st)))) = map row_core (fragments (fst st))"
  by (simp add: search_def Let_def incrementAccess_def comp_def row_core_def)

lemma core_detectConflicts:
  "map row_core (fragments (fst (snd (detectConflicts e c tp i st)))) = map row_core (fragments (fst st))"
  by (simp add: detectConflicts_def Let_def split_beta core_search)

lemma core_autoLink:
  "map row_core (fragments (autoLinkOnRemember e new i ag d)) = map row_core (fragments d)"
  by (simp add: autoLinkOnRemember_def core_fold_link split: list.splits option.splits)

lemma create_anchor:
  "create e n (p\<lparr>p_isAnchor := Some (case p_isAnchor p of None \<Rightarrow> False | Some b \<Rightarrow> b)\<rparr>)
   = create e n p"
  by (simp add: create_def Let_def)

lemma or_default_ne: "dflt \<noteq> [] \<Longrightarrow> or_default v dflt \<noteq> []"
  by (simp add: or_default_def split: option.splits)

lemma create_fields:
  assumes "create e n p = Some f"
  shows "d_id f = n" "d_agent_id f = or_default (p_agentId p) ''default''" "d_agent_id f \<noteq> []"
proof -
  from assms have "d_id f = n \<and> d_agent_id f = or_default (p_agentId p) ''default''"
    unfolding create_def Let_def by (auto split: if_splits)
  then show "d_id f = n" "d_agent_id f = or_default (p_agentId p) ''default''" by simp_all
  then show "d_agent_id f \<noteq> []" using or_default_ne [of "''default''" "p_agentId p"] by simp
qed

lemma safe_agent_id: "list_all agent_char a \<Longrightarrow> a \<noteq> [] \<Longrightarrow> safe_agent a = a"
  by (simp add: safe_agent_def list_all_iff)

lemma filter_conj_empty: "filter P xs = [] \<Longrightarrow> filter (\<lambda>x. Q x \<and> P x) xs = []"
  by (induction xs) (auto split: if_splits)

lemma insert_fresh:
  assumes fresh: "computeContentHash e (d_content f) \<notin> content_hash ` set (fragments d)"
    and newid: "d_id f \<notin> frag_id ` set (fragments d)"
    and imp: "importance_ok (d_importance f)"
    and ag: "list_all agent_char (d_agent_id f)" "d_agent_id f \<noteq> []"
  shows "insert_store e f d
           = Inr (d_id f, d\<lparr>fragments := fragments d @
                    [insert_row e f (d_agent_id f) (computeContentHash e (d_content f))
                       (if d_importance f > 0.5 \<and> openai_api_key e
                        then generateEmbedding e (d_content f) else None)]\<rparr>)"
proof -
  have n2: "filter (\<lambda>r. content_hash r = computeContentHash e (d_content f)) (fragments d) = []"
    using fresh by (rule no_match)
  have n1: "filter (\<lambda>x. visible (safe_agent (d_agent_id f)) x \<and>
                         content_hash x = computeContentHash e (d_content f)) (fragments d) = []"
    using n2 by (rule filter_conj_empty)
  have vis: "visible (safe_agent (d_agent_id f)) (insert_row e f (d_agent_id f) h emb)" for h emb
    using safe_agent_id [OF ag] by (simp add: visible_def insert_row_def)
  have ok: "importance_ok (importance (insert_row e f (d_agent_id f) h emb))" for h emb
    using imp by (simp add: insert_row_def importance_ok_def)
  show ?thesis
    using ag(2) newid by (simp add: insert_store_def Let_def n1 n2 vis ok)
qed

text \<open>
  C10: a \<^verbatim>\<open>remember\<close> call with scope \<^verbatim>\<open>session\<close> and no session id does exactly what the
  same call with scope \<^verbatim>\<open>permanent\<close> does, on the store and on Redis alike. When the
  factory accepts the content, no row has its hash or the new id, the importance is
  within the check constraint and the agent name is one the row-level policy admits
  unchanged, the call succeeds: the result carries the new id and the scope
  \<^verbatim>\<open>permanent\<close>, the working memory is as it was, and the table is the old one (in the
  columns no later statement of the call writes) with the new fragment's row appended.
\<close>

theorem C10_session_scope_without_session_id:
  assumes sc: "p_scope p = Some ''session''" and sid: "p_sessionId p = None"
    and cr: "create e newId p = Some f"
    and fresh: "computeContentHash e (d_content f) \<notin> content_hash ` set (fragments (fst st))"
    and newid: "newId \<notin> frag_id ` set (fragments (fst st))"
    and imp: "importance_ok (d_importance f)"
    and ag: "list_all agent_char (d_agent_id f)"
  shows "remember e newId p st = remember e newId (p\<lparr>p_scope := Some ''permanent''\<rparr>) st \<and>
         (\<exists>r d rd. remember e newId p st = Inr (r, d, rd) \<and>
            r_id r = newId \<and> r_scope r = ''permanent'' \<and>
            working_memory rd = working_memory (snd st) \<and>
            map row_core (fragments d) =
              map row_core (fragments (fst st)) @
                [(newId, d_content f, d_topic f, d_keywords f, d_type f,
                  (if d_importance f = 0 then 0.5 else d_importance f),
                  computeContentHash e (d_content f), d_agent_id f, d_ttl_tier f)])"
proof
  have swap: "\<And>q b. (q\<lparr>p_scope := Some ''permanent''\<rparr>)\<lparr>p_isAnchor := b\<rparr>
                     = (q\<lparr>p_isAnchor := b\<rparr>)\<lparr>p_scope := Some ''permanent''\<rparr>" by simp
  show "remember e newId p st = remember e newId (p\<lparr>p_scope := Some ''permanent''\<rparr>) st"
    using sc sid
    by (simp add: remember_def Let_def or_default_def swap create_scope
             cong: option.case_cong sum.case_cong)
  note cf = create_fields [OF cr]
  have f': "f\<lparr>d_agent_id := or_default (p_agentId p) ''default''\<rparr> = f" using cf(2) by simp
  define emb where "emb = (if d_importance f > 0.5 \<and> openai_api_key e
                            then generateEmbedding e (d_content f) else None)"
  have "d_id f \<notin> frag_id ` set (fragments (fst st))" using newid cf(1) by simp
  from insert_fresh [OF fresh this imp ag cf(3)]
  have ins: "insert_store e f (fst st)
      = Inr (newId, (fst st)\<lparr>fragments := fragments (fst st) @
               [insert_row e f (d_agent_id f) (computeContentHash e (d_content f)) emb]\<rparr>)"
    using cf(1) by (simp add: emb_def)
  have core: "row_core (insert_row e f (d_agent_id f) (computeContentHash e (d_content f)) emb)
              = (newId, d_content f, d_topic f, d_keywords f, d_type f,
                 (if d_importance f = 0 then 0.5 else d_importance f),
                 computeContentHash e (d_content f), d_agent_id f, d_ttl_tier f)"
    using cf(1) by (simp add: row_core_def insert_row_def)
  show "\<exists>r d rd. remember e newId p st = Inr (r, d, rd) \<and>
            r_id r = newId \<and> r_scope r = ''permanent'' \<and>
            working_memory rd = working_memory (snd st) \<and>
            map row_core (fragments d) =
              map row_core (fragments (fst st)) @
                [(newId, d_content f, d_topic f, d_keywords f, d_type f,
                  (if d_importance f = 0 then 0.5 else d_importance f),
                  computeContentHash e (d_content f), d_agent_id f, d_ttl_tier f)]"
  proof -
    have ns: "\<not> (or_default (p_scope p) ''permanent'' = ''session'' \<and>
                  or_default (p_sessionId p) [] \<noteq> [])"
      using sid by (simp add: or_default_def)
    have cr': "create e newId
                 (p\<lparr>p_isAnchor := Some (case p_isAnchor p of None \<Rightarrow> False | Some b \<Rightarrow> b)\<rparr>)
               = Some f"
      using cr by (simp only: create_anchor)
    show ?thesis
      by (simp add: remember_def Let_def split_beta ns cr' f' ins pushToQueue_def
               wm_index_fragment wm_detectConflicts
               core_autoLink core_detectConflicts core_fold_link core)
  qed
qed

text \<open>C10 on a call that stores a fact beside the two fragments above.\<close>

theorem C10_session_scope_example:
  "p_scope session_params = Some ''session'' \<and> p_sessionId session_params = None \<and>
   create env0 ''frag-n'' session_params = Some session_draft \<and>
   remember env0 ''frag-n'' session_params (two_rows, redis0)
     = remember env0 ''frag-n'' (session_params\<lparr>p_scope := Some ''permanent''\<rparr>) (two_rows, redis0) \<and>
   (\<exists>r d rd. remember env0 ''frag-n'' session_params (two_rows, redis0) = Inr (r, d, rd) \<and>
      r_id r = ''frag-n'' \<and> r_scope r = ''permanent'' \<and>
      working_memory rd = working_memory (snd (two_rows, redis0)) \<and>
      map row_core (fragments d) =
        map row_core (fragments (fst (two_rows, redis0))) @
          [(''frag-n'', d_content session_draft, d_topic session_draft, d_keywords session_draft,
            d_type session_draft,
            (if d_importance session_draft = 0 then 0.5 else d_importance session_draft),
            computeContentHash env0 (d_content session_draft), d_agent_id session_draft,
            d_ttl_tier session_draft)])"
proof -
  have h1: "p_scope session_params = Some ''session''"
    by (simp add: session_params_def no_params_def)
  have h2: "p_sessionId session_params = None"
    by (simp add: session_params_def no_params_def)
  have h3: "create env0 ''frag-n'' session_params = Some session_draft" by code_simp
  have h4: "computeContentHash env0 (d_content session_draft)
              \<notin> content_hash ` set (fragments (fst (two_rows, redis0)))" by code_simp
  have h5: "''frag-n'' \<notin> frag_id ` set (fragments (fst (two_rows, redis0)))" by code_simp
  have h6: "importance_ok (d_importance session_draft)" by code_simp
  have h7: "list_all agent_char (d_agent_id session_draft)" by code_simp
  from C10_session_scope_without_session_id [OF h1 h2 h3 h4 h5 h6 h7] h1 h2 h3
  show ?thesis by (elim conjE) (intro conjI; assumption)
qed

text \<open>That call, evaluated: the fragment is the third row of the store afterwards.\<close>

theorem C10_session_scope_run:
  "(case remember env0 ''frag-n'' session_params (two_rows, redis0) of
      Inl err \<Rightarrow> False
    | Inr (r, d, rd) \<Rightarrow>
        r_id r = ''frag-n'' \<and> r_scope r = ''permanent'' \<and>
        map (\<lambda>x. (frag_id x, content x)) (fragments d)
          = [(''frag-a'', js ''a''), (''frag-b'', js ''b''),
             (''frag-n'', js ''Use pnpm for installs.'')] \<and>
        working_memory rd ''s'' = [])"
  by code_simp

end
